theory Spec2Isabelle
  imports Main
begin

section \<open>Values and entries\<close>

text \<open>
  The payload of an entry is opaque to the queue store. The only thing the code asks of
  it is \<^verbatim>\<open>typeof\<close>, in the development-build assertions, so a small datatype of
  JavaScript values with their \<^verbatim>\<open>typeof\<close> strings is enough. Numbers inside a
  payload are kept integral: no operation of the store computes with them.
\<close>

datatype js_value =
    JSUndefined
  | JSNull
  | JSBoolean bool
  | JSNumber int
  | JSString string
  | JSObject "(string \<times> js_value) list"

fun typeof :: "js_value \<Rightarrow> string" where
  "typeof JSUndefined = ''undefined''"
| "typeof JSNull = ''object''"
| "typeof (JSBoolean b) = ''boolean''"
| "typeof (JSNumber n) = ''number''"
| "typeof (JSString s) = ''string''"
| "typeof (JSObject ps) = ''object''"

text \<open>
  Modelled from the spec: the interfaces \<^verbatim>\<open>UnidentifiedQueueStoreEntry\<close> and
  \<^verbatim>\<open>QueueStoreEntry\<close> are imported from \<^verbatim>\<open>QueueDb.ts\<close>, which is not among the
  sources. The fields are those
  of the entry of section 3 of the specification, which are also the fields
  \<^verbatim>\<open>QueueStore.ts\<close> and its documentation comments name: \<^verbatim>\<open>id\<close>,
  \<^verbatim>\<open>queueName\<close>, \<^verbatim>\<open>requestData\<close>, \<^verbatim>\<open>timestamp\<close>, \<^verbatim>\<open>metadata\<close>. The two
  interfaces differ in \<^verbatim>\<open>id\<close> only: it may be absent from the entry a caller hands
  in (\<^verbatim>\<open>delete entry.id\<close> makes it \<open>None\<close>), and it is a number on a stored entry
  (\<^verbatim>\<open>firstEntry.id - 1\<close>, \<^verbatim>\<open>deleteEntry(entry.id)\<close>). The record is therefore
  polymorphic in the type of its id field. The field is called \<open>id_field\<close> because
  \<open>id\<close> is the identity function of HOL.

  Ids are JavaScript numbers holding integers, and an \<open>int\<close> stands for the number
  that holds it. The one computation the queue store makes on an id,
  \<^verbatim>\<open>firstEntry.id - 1\<close>, is made on IEEE 754 doubles: the exact difference is rounded
  to the nearest double, a tie going to the double with the even significand. That
  rounding is part of the model (\<open>numberSubtract\<close> below).
\<close>

record 'i Entry =
  id_field :: 'i
  queueName :: "string option"
  requestData :: js_value
  timestamp :: "int option"
  metadata :: "js_value option"

type_synonym UnidentifiedQueueStoreEntry = "int option Entry"
type_synonym QueueStoreEntry = "int Entry"

text \<open>
  A double has a significand of 53 bits. An integer of magnitude at most \<open>2^53\<close> is a
  double. A larger one has more than 53 bits; with \<open>e\<close> the number of bits in excess,
  the doubles around it are the multiples of \<open>2^e\<close>, and it is rounded to the nearer of
  the two that enclose it, to the one with the even quotient when it lies half-way. (The
  difference of a double and 1 never leaves the range of finite doubles, so overflow to
  infinity is not modelled.)
\<close>

function bitLength :: "int \<Rightarrow> nat" where
  \<comment> \<open>The number of binary digits of a positive integer.\<close>
  "bitLength n = (if n \<le> 0 then 0 else Suc (bitLength (n div 2)))"
  by pat_completeness auto
termination
  by (relation "measure nat") auto

declare bitLength.simps [simp del]

definition roundToDouble :: "int \<Rightarrow> int" where
  "roundToDouble n =
     (if \<bar>n\<bar> \<le> 2 ^ 53 then n
      else
        let e = bitLength \<bar>n\<bar> - 53;
            q = \<bar>n\<bar> div 2 ^ e;
            r = \<bar>n\<bar> mod 2 ^ e;
            half = 2 ^ (e - 1);
            m = (if r < half \<or> (r = half \<and> even q) then q else q + 1)
        in sgn n * (m * 2 ^ e))"

definition numberSubtract :: "int \<Rightarrow> int \<Rightarrow> int" where
  \<comment> \<open>\<^verbatim>\<open>a - b\<close> on numbers that hold integers.\<close>
  "numberSubtract a b = roundToDouble (a - b)"

text \<open>
  What a method can throw: the validation error of a development build, with the names of
  the method and of the parameter (the \<^verbatim>\<open>funcName\<close> and \<^verbatim>\<open>paramName\<close> of the
  assertion), and the failure of the entry store to add a record under an id in use.
\<close>

datatype error =
    IncorrectType string string
  | ConstraintError

section \<open>The entry store (QueueDb)\<close>

text \<open>
  Modelled from the spec: \<^verbatim>\<open>QueueDb.ts\<close> is imported by \<^verbatim>\<open>QueueStore.ts\<close> but is
  not among the sources. Its state, the two argument types \<^verbatim>\<open>QueueStore.ts\<close> passes
  to it and its five operations follow section 6 of the specification.
  The state is the collection of stored records together with the counter of the single
  global auto-incrementing sequence. The records are kept in the order of their
  addition, latest first; every operation that reads them puts them in ascending id order
  itself, so nothing depends on the order of storage.
\<close>

record QueueDb =
  records :: "QueueStoreEntry list"
  keyGenerator :: int

datatype IDBCursorDirection = Next | Prev

datatype IDBKeyRange = IDBKeyRange_only string

definition emptyDb :: QueueDb where
  \<comment> \<open>Modelled from the spec: the store before any record was added; the
      auto-incrementing sequence of an IndexedDB object store starts at 1.\<close>
  "emptyDb = \<lparr>records = [], keyGenerator = 1\<rparr>"

definition identify :: "int \<Rightarrow> UnidentifiedQueueStoreEntry \<Rightarrow> QueueStoreEntry" where
  \<comment> \<open>Modelled from the spec: the persisted record is the entry of section 3 with its id
      filled in; every other field is stored as given.\<close>
  "identify k e =
     \<lparr>id_field = k, queueName = queueName e, requestData = requestData e,
      timestamp = timestamp e, metadata = metadata e\<rparr>"

definition occupied :: "int \<Rightarrow> QueueDb \<Rightarrow> bool" where
  \<comment> \<open>Modelled from the spec: an id is occupied when a stored record carries it.\<close>
  "occupied k db = (k \<in> set (map id_field (records db)))"

definition addEntry :: "UnidentifiedQueueStoreEntry \<Rightarrow> QueueDb \<Rightarrow> error + QueueDb" where
  \<comment> \<open>Modelled from the spec: \<^verbatim>\<open>addEntry(entry)\<close> "persists a new record; if entry.id
      is unset, assigns the next id in a single global auto-incrementing sequence; fails
      if entry.id is set but already occupied".\<close>
  "addEntry e db =
     (case id_field e of
        None \<Rightarrow>
          Inr (db\<lparr>records := identify (keyGenerator db) e # records db,
                  keyGenerator := keyGenerator db + 1\<rparr>)
      | Some k \<Rightarrow>
          if occupied k db then Inl ConstraintError
          else Inr (db\<lparr>records := identify k e # records db\<rparr>))"

definition ascending :: "QueueStoreEntry list \<Rightarrow> QueueStoreEntry list" where
  \<comment> \<open>Modelled from the spec: "ascending id order", the order in which the entry store
      traverses records.\<close>
  "ascending es = sort_key id_field es"

definition getFirstEntry :: "QueueDb \<Rightarrow> QueueStoreEntry option" where
  \<comment> \<open>Modelled from the spec: \<^verbatim>\<open>getFirstEntry()\<close> "returns the record with the
      globally-lowest id across all queue names, or nothing if the store is empty".\<close>
  "getFirstEntry db =
     (case ascending (records db) of [] \<Rightarrow> None | e # _ \<Rightarrow> Some e)"

fun inRange :: "IDBKeyRange \<Rightarrow> QueueStoreEntry \<Rightarrow> bool" where
  \<comment> \<open>Modelled from the spec: a record matches the queue-name filter
      \<^verbatim>\<open>IDBKeyRange.only(name)\<close> when its queue name is \<open>name\<close>.\<close>
  "inRange (IDBKeyRange_only name) e = (queueName e = Some name)"

definition getAllEntriesFromIndex :: "IDBKeyRange \<Rightarrow> QueueDb \<Rightarrow> QueueStoreEntry list" where
  \<comment> \<open>Modelled from the spec: \<^verbatim>\<open>getAllEntriesFromIndex(queueNameFilter)\<close> "returns all
      records matching queueNameFilter, in ascending id order".\<close>
  "getAllEntriesFromIndex query db = ascending (filter (inRange query) (records db))"

definition getEndEntryFromIndex ::
  "IDBCursorDirection option \<Rightarrow> IDBKeyRange \<Rightarrow> QueueDb \<Rightarrow> QueueStoreEntry option" where
  \<comment> \<open>Modelled from the spec: \<^verbatim>\<open>getEndEntryFromIndex({direction}, queueNameFilter)\<close>
      "returns the single record matching queueNameFilter that is first in traversal
      order direction (ascending = front, descending = back), or nothing if none match".
      A direction left out is the cursor's default, ascending.\<close>
  "getEndEntryFromIndex direction query db =
     (let matching = getAllEntriesFromIndex query db in
      case direction of
        Some Prev \<Rightarrow> (case rev matching of [] \<Rightarrow> None | e # _ \<Rightarrow> Some e)
      | _ \<Rightarrow> (case matching of [] \<Rightarrow> None | e # _ \<Rightarrow> Some e))"

definition db_deleteEntry :: "int \<Rightarrow> QueueDb \<Rightarrow> QueueDb" where
  \<comment> \<open>Modelled from the spec: \<^verbatim>\<open>deleteEntry(id)\<close> "deletes the record with the given
      id; no-op or silent if absent".\<close>
  "db_deleteEntry k db = db\<lparr>records := filter (\<lambda>e. id_field e \<noteq> k) (records db)\<rparr>"

section \<open>The queue store (QueueStore.ts)\<close>

text \<open>
  A \<^verbatim>\<open>QueueStore\<close> holds its queue name and a \<^verbatim>\<open>QueueDb\<close> handle. Every handle
  opens the same database, so the database state is one value, passed to each method and
  returned by it. Each method is run to completion before the next starts (every call
  awaited); interleavings inside a method and failures of the storage medium are outside
  the model.

  \<^verbatim>\<open>process.env.NODE_ENV\<close> is the first argument of the two methods that read it.
\<close>

record QueueStore =
  this_queueName :: string

definition new_QueueStore :: "string \<Rightarrow> QueueStore" where
  "new_QueueStore queueName' = \<lparr>this_queueName = queueName'\<rparr>"

definition isType :: "string \<Rightarrow> string \<Rightarrow> string \<Rightarrow> string \<Rightarrow> error option" where
  \<comment> \<open>Modelled from the spec: the assertion helper of \<^verbatim>\<open>workbox-core\<close> is not among
      the sources; a value of the wrong \<^verbatim>\<open>typeof\<close> is a validation error (section 7).
      The first argument is the \<^verbatim>\<open>typeof\<close> of the checked value.\<close>
  "isType actualType expectedType funcName paramName =
     (if actualType \<noteq> expectedType then Some (IncorrectType funcName paramName) else None)"

definition assertEntry :: "string \<Rightarrow> string \<Rightarrow> UnidentifiedQueueStoreEntry \<Rightarrow> error option" where
  \<comment> \<open>The block guarded by \<^verbatim>\<open>process.env.NODE_ENV !== 'production'\<close> at the head of
      \<^verbatim>\<open>pushEntry\<close> and \<^verbatim>\<open>unshiftEntry\<close>. An entry is a record, so its
      \<^verbatim>\<open>typeof\<close> is \<^verbatim>\<open>'object'\<close>.\<close>
  "assertEntry node_env funcName entry =
     (if node_env \<noteq> ''production'' then
        (case isType ''object'' ''object'' funcName ''entry'' of
           Some err \<Rightarrow> Some err
         | None \<Rightarrow>
             isType (typeof (requestData entry)) ''object'' funcName ''entry.requestData'')
      else None)"

definition pushEntry ::
  "string \<Rightarrow> QueueStore \<Rightarrow> UnidentifiedQueueStoreEntry \<Rightarrow> QueueDb
     \<Rightarrow> UnidentifiedQueueStoreEntry \<times> (error + QueueDb)" where
  \<comment> \<open>Returns the caller's entry object as the call leaves it, and the outcome: the
      error thrown (the database is then unchanged) or the database after the call.\<close>
  "pushEntry node_env this entry db =
     (case assertEntry node_env ''pushEntry'' entry of
        Some err \<Rightarrow> (entry, Inl err)
      | None \<Rightarrow>
          let entry1 = entry\<lparr>id_field := None\<rparr>;
              entry2 = entry1\<lparr>queueName := Some (this_queueName this)\<rparr>
          in (entry2, addEntry entry2 db))"

definition unshiftEntry ::
  "string \<Rightarrow> QueueStore \<Rightarrow> UnidentifiedQueueStoreEntry \<Rightarrow> QueueDb
     \<Rightarrow> UnidentifiedQueueStoreEntry \<times> (error + QueueDb)" where
  "unshiftEntry node_env this entry db =
     (case assertEntry node_env ''unshiftEntry'' entry of
        Some err \<Rightarrow> (entry, Inl err)
      | None \<Rightarrow>
          let firstEntry = getFirstEntry db;
              entry1 = (case firstEntry of
                          Some first \<Rightarrow>
                            entry\<lparr>id_field := Some (numberSubtract (id_field first) 1)\<rparr>
                        | None \<Rightarrow> entry\<lparr>id_field := None\<rparr>);
              entry2 = entry1\<lparr>queueName := Some (this_queueName this)\<rparr>
          in (entry2, addEntry entry2 db))"

definition getAll :: "QueueStore \<Rightarrow> QueueDb \<Rightarrow> QueueStoreEntry list" where
  "getAll this db = getAllEntriesFromIndex (IDBKeyRange_only (this_queueName this)) db"

definition deleteEntry :: "QueueStore \<Rightarrow> int \<Rightarrow> QueueDb \<Rightarrow> QueueDb" where
  "deleteEntry this k db = db_deleteEntry k db"

definition removeEntry ::
  "QueueStore \<Rightarrow> IDBCursorDirection option \<Rightarrow> QueueDb \<Rightarrow> QueueStoreEntry option \<times> QueueDb" where
  \<comment> \<open>\<^verbatim>\<open>_removeEntry\<close>: the entry returned (\<open>None\<close> for \<^verbatim>\<open>undefined\<close>) and the
      database after the call.\<close>
  "removeEntry this direction db =
     (case getEndEntryFromIndex direction (IDBKeyRange_only (this_queueName this)) db of
        Some entry \<Rightarrow> (Some entry, deleteEntry this (id_field entry) db)
      | None \<Rightarrow> (None, db))"

definition popEntry :: "QueueStore \<Rightarrow> QueueDb \<Rightarrow> QueueStoreEntry option \<times> QueueDb" where
  "popEntry this db = removeEntry this (Some Prev) db"

definition shiftEntry :: "QueueStore \<Rightarrow> QueueDb \<Rightarrow> QueueStoreEntry option \<times> QueueDb" where
  "shiftEntry this db = removeEntry this (Some Next) db"

section \<open>Sequences of calls\<close>

text \<open>
  Properties of sequences and interleavings of calls are stated over a driver: a call names the
  store instance it is made on, \<open>step\<close> performs one call on the shared database and
  \<open>run\<close> performs a list of calls in order, each awaited before the next; it stops at
  the first call that throws. The outcome of a call is what the caller can observe of it:
  its own entry object after \<^verbatim>\<open>pushEntry\<close>/\<^verbatim>\<open>unshiftEntry\<close>, the value returned
  by the other methods.
\<close>

datatype call =
    PushEntry QueueStore UnidentifiedQueueStoreEntry
  | UnshiftEntry QueueStore UnidentifiedQueueStoreEntry
  | PopEntry QueueStore
  | ShiftEntry QueueStore
  | GetAll QueueStore
  | DeleteEntry QueueStore int

datatype outcome =
    Stored UnidentifiedQueueStoreEntry
  | Removed "QueueStoreEntry option"
  | Listed "QueueStoreEntry list"
  | Deleted

fun step :: "string \<Rightarrow> call \<Rightarrow> QueueDb \<Rightarrow> error + (outcome \<times> QueueDb)" where
  "step node_env (PushEntry this entry) db =
     (case pushEntry node_env this entry db of
        (entry', Inl err) \<Rightarrow> Inl err
      | (entry', Inr db') \<Rightarrow> Inr (Stored entry', db'))"
| "step node_env (UnshiftEntry this entry) db =
     (case unshiftEntry node_env this entry db of
        (entry', Inl err) \<Rightarrow> Inl err
      | (entry', Inr db') \<Rightarrow> Inr (Stored entry', db'))"
| "step node_env (PopEntry this) db =
     (case popEntry this db of (r, db') \<Rightarrow> Inr (Removed r, db'))"
| "step node_env (ShiftEntry this) db =
     (case shiftEntry this db of (r, db') \<Rightarrow> Inr (Removed r, db'))"
| "step node_env (GetAll this) db = Inr (Listed (getAll this db), db)"
| "step node_env (DeleteEntry this k) db = Inr (Deleted, deleteEntry this k db)"

fun run :: "string \<Rightarrow> call list \<Rightarrow> QueueDb \<Rightarrow> error + (outcome list \<times> QueueDb)" where
  "run node_env [] db = Inr ([], db)"
| "run node_env (c # cs) db =
     (case step node_env c db of
        Inl err \<Rightarrow> Inl err
      | Inr (out, db') \<Rightarrow>
          (case run node_env cs db' of
             Inl err \<Rightarrow> Inl err
           | Inr (outs, db'') \<Rightarrow> Inr (out # outs, db'')))"

section \<open>Vocabulary of the properties\<close>

text \<open>
  A database is well formed when no two records share an id and every id is below the
  counter of the auto-incrementing sequence. The empty database is well formed, and every
  method of the queue store keeps a database well formed when its ids are integers of
  magnitude at most \<open>2^53\<close> (lemmas \<open>wf_db_emptyDb\<close> and \<open>wf_db_step\<close> below). The
  ids stay of that magnitude as long as the counter does (lemmas \<open>numbersExact_emptyDb\<close>
  and \<open>numbersExact_step\<close>).
\<close>

definition wf_db :: "QueueDb \<Rightarrow> bool" where
  "wf_db db =
     (distinct (map id_field (records db)) \<and>
      list_all (\<lambda>e. id_field e < keyGenerator db) (records db))"

definition stamped :: "QueueStore \<Rightarrow> int \<Rightarrow> UnidentifiedQueueStoreEntry \<Rightarrow> QueueStoreEntry" where
  \<comment> \<open>The record expected in the database for an entry handed to the store \<open>this\<close> and
      given the id \<open>k\<close>: the caller's payload, the store's queue name, the id \<open>k\<close>.\<close>
  "stamped this k entry =
     \<lparr>id_field = k, queueName = Some (this_queueName this),
      requestData = requestData entry, timestamp = timestamp entry,
      metadata = metadata entry\<rparr>"

fun idsUp :: "int \<Rightarrow> nat \<Rightarrow> int list" where
  \<comment> \<open>\<open>k, k + 1, ..., k + n - 1\<close>\<close>
  "idsUp k 0 = []"
| "idsUp k (Suc n) = k # idsUp (k + 1) n"

fun idsDown :: "int \<Rightarrow> nat \<Rightarrow> int list" where
  \<comment> \<open>\<open>k, k - 1, ..., k - n + 1\<close>\<close>
  "idsDown k 0 = []"
| "idsDown k (Suc n) = k # idsDown (k - 1) n"

definition frontId :: "QueueDb \<Rightarrow> int" where
  \<comment> \<open>The id one below the lowest id of the database; the counter's value when the
      database is empty.\<close>
  "frontId db =
     (if records db = [] then keyGenerator db
      else Min (set (map id_field (records db))) - 1)"

definition pushed :: "QueueStore \<Rightarrow> UnidentifiedQueueStoreEntry \<Rightarrow> QueueDb \<Rightarrow> QueueDb" where
  \<comment> \<open>The database expected after a push: one record more, with the id of the
      auto-incrementing sequence, and the sequence advanced.\<close>
  "pushed this entry db =
     db\<lparr>records := stamped this (keyGenerator db) entry # records db,
        keyGenerator := keyGenerator db + 1\<rparr>"

definition unshifted :: "QueueStore \<Rightarrow> UnidentifiedQueueStoreEntry \<Rightarrow> QueueDb \<Rightarrow> QueueDb" where
  \<comment> \<open>The database expected after an unshift: one record more, with the id
      \<open>frontId\<close>; the sequence advances only when the database was empty.\<close>
  "unshifted this entry db =
     db\<lparr>records := stamped this (frontId db) entry # records db,
        keyGenerator := (if records db = [] then keyGenerator db + 1 else keyGenerator db)\<rparr>"

definition decrementExact :: "int \<Rightarrow> bool" where
  \<comment> \<open>The ids \<open>m\<close> for which \<^verbatim>\<open>m - 1\<close> is computed exactly: both \<open>m\<close> and
      \<open>m - 1\<close> are integers of magnitude at most \<open>2^53\<close>.\<close>
  "decrementExact m = (- (2 ^ 53) < m \<and> m \<le> 2 ^ 53)"

definition lowestExact :: "QueueDb \<Rightarrow> bool" where
  \<comment> \<open>An unshift on the database computes its id exactly: the database is empty (no
      subtraction is made), or its lowest id is in the range of \<open>decrementExact\<close>.\<close>
  "lowestExact db =
     (records db = [] \<or> decrementExact (Min (set (map id_field (records db)))))"

definition numbersExact :: "QueueDb \<Rightarrow> bool" where
  \<comment> \<open>Every stored id is an integer of magnitude at most \<open>2^53\<close>.\<close>
  "numbersExact db = list_all (\<lambda>e. \<bar>id_field e\<bar> \<le> 2 ^ 53) (records db)"

definition accepted :: "string \<Rightarrow> UnidentifiedQueueStoreEntry \<Rightarrow> bool" where
  \<comment> \<open>The entry gets past the assertions at the head of \<^verbatim>\<open>pushEntry\<close> and
      \<^verbatim>\<open>unshiftEntry\<close>: the build is a production build, or \<^verbatim>\<open>requestData\<close> is an
      object, as the parameter type \<^verbatim>\<open>UnidentifiedQueueStoreEntry\<close> says.\<close>
  "accepted node_env entry =
     (node_env = ''production'' \<or> typeof (requestData entry) = ''object'')"

definition example_entry :: "string \<Rightarrow> UnidentifiedQueueStoreEntry" where
  \<comment> \<open>The entry \<^verbatim>\<open>{requestData: {url: u}}\<close> of the example scenario: no id, no queue
      name, no timestamp, no metadata.\<close>
  "example_entry url =
     \<lparr>id_field = None, queueName = None,
      requestData = JSObject [(''url'', JSString url)],
      timestamp = None, metadata = None\<rparr>"

definition example_db :: QueueDb where
  \<comment> \<open>A database holding one entry of queue \<open>B\<close> (id 3) and two of queue \<open>A\<close>
      (ids 4 and 5); the auto-incrementing sequence has reached 6.\<close>
  "example_db =
     \<lparr>records = [stamped (new_QueueStore ''B'') 3 (example_entry ''/x''),
                 stamped (new_QueueStore ''A'') 5 (example_entry ''/z''),
                 stamped (new_QueueStore ''A'') 4 (example_entry ''/y'')],
      keyGenerator = 6\<rparr>"

definition lowDb :: QueueDb where
  \<comment> \<open>A database whose only record carries the id \<open>- 2^53\<close>.\<close>
  "lowDb =
     \<lparr>records = [stamped (new_QueueStore ''Q'') (- 9007199254740992) (example_entry ''/a'')],
      keyGenerator = 1\<rparr>"


section \<open>Basic facts\<close>

subsection \<open>Ascending order\<close>

lemma set_ascending [simp]: "set (ascending es) = set es"
  by (simp add: ascending_def)

lemma ascending_Nil [simp]: "ascending [] = []"
  by (simp add: ascending_def)

lemma ascending_Nil_iff [simp]: "ascending es = [] \<longleftrightarrow> es = []"
  by (metis set_ascending set_empty)

lemma sorted_ascending: "sorted (map id_field (ascending es))"
  by (simp add: ascending_def)

lemma insort_key_last:
  "\<forall>y \<in> set ys. f y < f x \<Longrightarrow> insort_key f x ys = ys @ [x]"
  by (induction ys) auto

lemma ascending_Cons_highest:
  "\<forall>e \<in> set es. id_field e < id_field x \<Longrightarrow> ascending (x # es) = ascending es @ [x]"
  by (simp add: ascending_def insort_key_last)

lemma ascending_Cons_lowest:
  "\<forall>e \<in> set es. id_field x < id_field e \<Longrightarrow> ascending (x # es) = x # ascending es"
  by (simp add: ascending_def insort_is_Cons less_imp_le)

lemma ascending_filter: "ascending (filter P es) = filter P (ascending es)"
  by (simp add: ascending_def filter_sort)

subsection \<open>The entry store\<close>

lemma identify_fields [simp]:
  "id_field (identify k e) = k"
  "queueName (identify k e) = queueName e"
  "requestData (identify k e) = requestData e"
  "timestamp (identify k e) = timestamp e"
  "metadata (identify k e) = metadata e"
  by (simp_all add: identify_def)

lemma stamped_fields [simp]:
  "id_field (stamped this k e) = k"
  "queueName (stamped this k e) = Some (this_queueName this)"
  "requestData (stamped this k e) = requestData e"
  "timestamp (stamped this k e) = timestamp e"
  "metadata (stamped this k e) = metadata e"
  by (simp_all add: stamped_def)

lemma identify_stamp:
  "identify k (e\<lparr>id_field := i, queueName := Some (this_queueName this)\<rparr>) = stamped this k e"
  by (simp add: identify_def stamped_def)

lemma getFirstEntry_None_iff: "getFirstEntry db = None \<longleftrightarrow> records db = []"
proof (cases "ascending (records db)")
  case Nil
  then show ?thesis by (simp add: getFirstEntry_def)
next
  case (Cons a as)
  then have "records db \<noteq> []" by auto
  with Cons show ?thesis by (simp add: getFirstEntry_def)
qed

lemma getFirstEntry_SomeD:
  assumes "getFirstEntry db = Some f"
  shows "f \<in> set (records db)" and "\<forall>e \<in> set (records db). id_field f \<le> id_field e"
proof -
  from assms obtain rest where asc: "ascending (records db) = f # rest"
    by (auto simp: getFirstEntry_def split: list.splits)
  then have "f \<in> set (ascending (records db))" by simp
  then show "f \<in> set (records db)" by simp
  have "sorted (map id_field (f # rest))"
    using sorted_ascending[of "records db"] asc by simp
  then have "\<forall>e \<in> set (f # rest). id_field f \<le> id_field e" by auto
  then show "\<forall>e \<in> set (records db). id_field f \<le> id_field e"
    using asc set_ascending[of "records db"] by metis
qed

lemma getFirstEntry_Min:
  assumes "getFirstEntry db = Some f"
  shows "id_field f = Min (set (map id_field (records db)))"
proof -
  have "id_field f \<in> set (map id_field (records db))"
    using getFirstEntry_SomeD(1)[OF assms] by simp
  moreover have "\<forall>k \<in> set (map id_field (records db)). id_field f \<le> k"
    using getFirstEntry_SomeD(2)[OF assms] by auto
  ultimately show ?thesis
    by (intro Min_eqI[symmetric]) auto
qed

lemma getFirstEntry_frontId:
  "getFirstEntry db = Some f \<Longrightarrow> frontId db = id_field f - 1"
  using getFirstEntry_Min[of db f] getFirstEntry_None_iff[of db]
  by (auto simp: frontId_def)

lemma frontId_below:
  assumes "e \<in> set (records db)"
  shows "frontId db < id_field e"
proof -
  from assms have ne: "records db \<noteq> []" by auto
  then obtain f where f: "getFirstEntry db = Some f"
    using getFirstEntry_None_iff[of db] by (cases "getFirstEntry db") auto
  from getFirstEntry_SomeD(2)[OF f] assms have "id_field f \<le> id_field e" by blast
  with getFirstEntry_frontId[OF f] show ?thesis by simp
qed

lemma frontId_free: "\<not> occupied (frontId db) db"
proof
  assume "occupied (frontId db) db"
  then obtain e where "e \<in> set (records db)" "id_field e = frontId db"
    by (auto simp: occupied_def)
  with frontId_below[of e db] show False by simp
qed

lemma frontId_empty: "records db = [] \<Longrightarrow> frontId db = keyGenerator db"
  by (simp add: frontId_def)

subsection \<open>Well-formed databases\<close>

lemma wf_dbD:
  assumes "wf_db db"
  shows "distinct (map id_field (records db))"
    and "e \<in> set (records db) \<Longrightarrow> id_field e < keyGenerator db"
  using assms by (auto simp: wf_db_def list_all_iff)

lemma wf_dbI:
  "distinct (map id_field (records db)) \<Longrightarrow>
   (\<And>e. e \<in> set (records db) \<Longrightarrow> id_field e < keyGenerator db) \<Longrightarrow> wf_db db"
  by (auto simp: wf_db_def list_all_iff)

lemma wf_db_emptyDb: "wf_db emptyDb"
  by (simp add: wf_db_def emptyDb_def)

lemma frontId_less_keyGenerator:
  "wf_db db \<Longrightarrow> records db \<noteq> [] \<Longrightarrow> frontId db < keyGenerator db"
proof -
  assume wf: "wf_db db" and ne: "records db \<noteq> []"
  then obtain e where e: "e \<in> set (records db)" by (cases "records db") auto
  from frontId_below[OF e] wf_dbD(2)[OF wf e] show ?thesis by simp
qed

lemma wf_db_deleteEntry: "wf_db db \<Longrightarrow> wf_db (db_deleteEntry k db)"
  by (auto simp: wf_db_def db_deleteEntry_def distinct_map_filter list_all_iff)

subsection \<open>The two insertions, in closed form\<close>

lemma assertEntry_None_iff:
  "assertEntry node_env funcName entry = None \<longleftrightarrow>
     node_env = ''production'' \<or> typeof (requestData entry) = ''object''"
  by (simp add: assertEntry_def isType_def)

lemma pushEntry_rejected:
  "assertEntry node_env ''pushEntry'' entry = Some err \<Longrightarrow>
   pushEntry node_env this entry db = (entry, Inl err)"
  by (simp add: pushEntry_def)

lemma unshiftEntry_rejected:
  "assertEntry node_env ''unshiftEntry'' entry = Some err \<Longrightarrow>
   unshiftEntry node_env this entry db = (entry, Inl err)"
  by (simp add: unshiftEntry_def)

lemma rejected_in_development:
  assumes "node_env \<noteq> ''production''" and "typeof (requestData entry) \<noteq> ''object''"
  shows "pushEntry node_env this entry db =
           (entry, Inl (IncorrectType ''pushEntry'' ''entry.requestData''))"
    and "unshiftEntry node_env this entry db =
           (entry, Inl (IncorrectType ''unshiftEntry'' ''entry.requestData''))"
  using assms by (simp_all add: pushEntry_def unshiftEntry_def assertEntry_def isType_def)

lemma pushEntry_accepted:
  assumes "assertEntry node_env ''pushEntry'' entry = None"
  shows "pushEntry node_env this entry db =
           (entry\<lparr>id_field := None, queueName := Some (this_queueName this)\<rparr>,
            Inr (db\<lparr>records := stamped this (keyGenerator db) entry # records db,
                    keyGenerator := keyGenerator db + 1\<rparr>))"
  using assms by (simp add: pushEntry_def addEntry_def identify_stamp)

lemma unshiftEntry_accepted_empty:
  assumes "assertEntry node_env ''unshiftEntry'' entry = None" and "records db = []"
  shows "unshiftEntry node_env this entry db =
           (entry\<lparr>id_field := None, queueName := Some (this_queueName this)\<rparr>,
            Inr (db\<lparr>records := stamped this (keyGenerator db) entry # records db,
                    keyGenerator := keyGenerator db + 1\<rparr>))"
proof -
  have "getFirstEntry db = None" using assms(2) by (simp add: getFirstEntry_None_iff)
  then show ?thesis
    using assms(1) by (simp add: unshiftEntry_def addEntry_def identify_stamp)
qed

lemma numberSubtract_exact:
  assumes "decrementExact m"
  shows "numberSubtract m 1 = m - 1"
proof -
  have "\<bar>m - 1\<bar> \<le> 2 ^ 53"
    using assms by (auto simp: decrementExact_def abs_le_iff)
  then show ?thesis by (simp add: numberSubtract_def roundToDouble_def)
qed

lemma numberSubtract_lowest: "numberSubtract (- 9007199254740992) 1 = - 9007199254740992"
  by code_simp


lemma unshiftEntry_accepted_any:
  assumes "assertEntry node_env ''unshiftEntry'' entry = None" and "records db \<noteq> []"
  shows "unshiftEntry node_env this entry db =
           (entry\<lparr>id_field := Some (numberSubtract (Min (set (map id_field (records db)))) 1),
                  queueName := Some (this_queueName this)\<rparr>,
            addEntry
              (entry\<lparr>id_field := Some (numberSubtract (Min (set (map id_field (records db)))) 1),
                     queueName := Some (this_queueName this)\<rparr>) db)"
proof -
  obtain f where f: "getFirstEntry db = Some f"
    using assms(2) getFirstEntry_None_iff[of db] by (cases "getFirstEntry db") auto
  show ?thesis
    using assms(1) f unfolding getFirstEntry_Min[OF f, symmetric]
    by (simp add: unshiftEntry_def Let_def)
qed

lemma unshiftEntry_accepted_nonempty:
  assumes "assertEntry node_env ''unshiftEntry'' entry = None" and "records db \<noteq> []"
    and "lowestExact db"
  shows "unshiftEntry node_env this entry db =
           (entry\<lparr>id_field := Some (frontId db), queueName := Some (this_queueName this)\<rparr>,
            Inr (db\<lparr>records := stamped this (frontId db) entry # records db\<rparr>))"
proof -
  have ex: "decrementExact (Min (set (map id_field (records db))))"
    using assms(2,3) by (simp add: lowestExact_def)
  have fid: "numberSubtract (Min (set (map id_field (records db)))) 1 = frontId db"
    unfolding numberSubtract_exact[OF ex] using assms(2) by (simp add: frontId_def)
  have "\<not> occupied (frontId db) db" by (rule frontId_free)
  then show ?thesis
    unfolding unshiftEntry_accepted_any[OF assms(1,2)] fid
    by (simp add: addEntry_def identify_stamp)
qed

lemma unshiftEntry_at_lowest:
  assumes "assertEntry node_env ''unshiftEntry'' entry = None" and "records db \<noteq> []"
    and "Min (set (map id_field (records db))) = - 9007199254740992"
  shows "unshiftEntry node_env this entry db =
           (entry\<lparr>id_field := Some (- 9007199254740992),
                  queueName := Some (this_queueName this)\<rparr>, Inl ConstraintError)"
proof -
  have "Min (set (map id_field (records db))) \<in> set (map id_field (records db))"
    using assms(2) by (intro Min_in) simp_all
  then have "occupied (- 9007199254740992) db"
    unfolding assms(3) by (simp add: occupied_def)
  then show ?thesis
    unfolding unshiftEntry_accepted_any[OF assms(1,2)] assms(3) numberSubtract_lowest
    by (simp add: addEntry_def)
qed

lemma unshiftEntry_adds:
  assumes "accepted node_env entry"
    and "snd (unshiftEntry node_env this entry db) = Inr db1"
  shows "\<exists>k. k \<notin> id_field ` set (records db) \<and>
             records db1 = stamped this k entry # records db"
proof (cases "records db = []")
  case True
  with assms show ?thesis
    by (auto simp: unshiftEntry_accepted_empty assertEntry_None_iff accepted_def)
next
  case False
  let ?j = "numberSubtract (Min (set (map id_field (records db)))) 1"
  have a: "assertEntry node_env ''unshiftEntry'' entry = None"
    using assms(1) by (simp add: assertEntry_None_iff accepted_def)
  from assms(2) have add: "addEntry (entry\<lparr>id_field := Some ?j,
      queueName := Some (this_queueName this)\<rparr>) db = Inr db1"
    unfolding unshiftEntry_accepted_any[OF a False] by simp
  then have "\<not> occupied ?j db" and "records db1 = stamped this ?j entry # records db"
    by (auto simp: addEntry_def identify_stamp split: if_splits)
  then show ?thesis by (auto simp: occupied_def)
qed

lemma assertEntry_accepted:
  "assertEntry node_env funcName entry = None \<longleftrightarrow> accepted node_env entry"
  by (simp add: assertEntry_None_iff accepted_def)

lemma example_entry_fields [simp]:
  "requestData (example_entry url) = JSObject [(''url'', JSString url)]"
  "timestamp (example_entry url) = None"
  "metadata (example_entry url) = None"
  "id_field (example_entry url) = None"
  "queueName (example_entry url) = None"
  by (simp_all add: example_entry_def)

lemma accepted_example_entry [simp]: "accepted node_env (example_entry url)"
  by (simp add: accepted_def)

lemma wf_db_example_db: "wf_db example_db"
  by (simp add: wf_db_def example_db_def)

subsection \<open>Reading a queue\<close>

lemma getAll_set:
  "set (getAll this db) = {e \<in> set (records db). queueName e = Some (this_queueName this)}"
  by (auto simp: getAll_def getAllEntriesFromIndex_def)

lemma getAll_sorted: "sorted (map id_field (getAll this db))"
  by (simp add: getAll_def getAllEntriesFromIndex_def sorted_ascending)

lemma getAll_Nil_iff:
  "getAll this db = [] \<longleftrightarrow> (\<forall>e \<in> set (records db). queueName e \<noteq> Some (this_queueName this))"
  using getAll_set[of this db] by (metis (mono_tags, lifting) empty_iff mem_Collect_eq set_empty empty_Collect_eq)

lemma getAll_keyGenerator_update [simp]:
  "getAll this (db\<lparr>keyGenerator := k\<rparr>) = getAll this db"
  by (simp add: getAll_def getAllEntriesFromIndex_def)

lemma getAll_Cons_highest:
  assumes "\<forall>e \<in> set (records db). id_field e < id_field r"
  shows "getAll this (db\<lparr>records := r # records db\<rparr>) =
           (if queueName r = Some (this_queueName this) then getAll this db @ [r]
            else getAll this db)"
  using assms
  by (simp add: getAll_def getAllEntriesFromIndex_def ascending_Cons_highest)

lemma getAll_Cons_lowest:
  assumes "\<forall>e \<in> set (records db). id_field r < id_field e"
  shows "getAll this (db\<lparr>records := r # records db\<rparr>) =
           (if queueName r = Some (this_queueName this) then r # getAll this db
            else getAll this db)"
  using assms
  by (simp add: getAll_def getAllEntriesFromIndex_def ascending_Cons_lowest)

lemma getAll_deleteEntry:
  "getAll this (deleteEntry that k db) = filter (\<lambda>e. id_field e \<noteq> k) (getAll this db)"
  by (simp add: getAll_def getAllEntriesFromIndex_def deleteEntry_def db_deleteEntry_def
      ascending_filter) (metis (mono_tags, lifting) filter_cong)

subsection \<open>Removal at an end\<close>

lemma getEndEntryFromIndex_getAll:
  "getEndEntryFromIndex direction (IDBKeyRange_only (this_queueName this)) db =
     (if getAll this db = [] then None
      else if direction = Some Prev then Some (last (getAll this db))
      else Some (hd (getAll this db)))"
proof -
  have at_front: "(case xs of [] \<Rightarrow> None | e # _ \<Rightarrow> Some e) = (if xs = [] then None else Some (hd xs))"
    for xs :: "QueueStoreEntry list"
    by (cases xs) simp_all
  show ?thesis
  proof (cases direction)
    case None
    then show ?thesis by (simp add: getEndEntryFromIndex_def getAll_def Let_def at_front)
  next
    case (Some d)
    then show ?thesis
      by (cases d) (simp_all add: getEndEntryFromIndex_def getAll_def Let_def at_front hd_rev)
  qed
qed

lemma hd_getAll_lowest:
  assumes "e \<in> set (getAll this db)"
  shows "id_field (hd (getAll this db)) \<le> id_field e"
proof -
  from assms obtain a as where c: "getAll this db = a # as" by (cases "getAll this db") auto
  with getAll_sorted[of this db] have "\<forall>x \<in> set (a # as). id_field a \<le> id_field x" by auto
  with assms c show ?thesis by (metis list.sel(1))
qed

lemma last_getAll_highest:
  assumes "e \<in> set (getAll this db)"
  shows "id_field e \<le> id_field (last (getAll this db))"
proof -
  from assms have ne: "getAll this db \<noteq> []" by auto
  then have c: "getAll this db = butlast (getAll this db) @ [last (getAll this db)]" by simp
  have "sorted (map id_field (butlast (getAll this db) @ [last (getAll this db)]))"
    using getAll_sorted[of this db] c by simp
  then have "\<forall>x \<in> set (butlast (getAll this db)). id_field x \<le> id_field (last (getAll this db))"
    by (simp add: sorted_append)
  moreover have "e \<in> set (butlast (getAll this db)) \<or> e = last (getAll this db)"
    using assms c by (metis Un_iff insert_iff list.set(2) set_append empty_iff list.set(1))
  ultimately show ?thesis by auto
qed

lemma delete_is_removeAll:
  assumes "distinct (map id_field es)" and "r \<in> set es"
  shows "filter (\<lambda>e. id_field e \<noteq> id_field r) es = removeAll r es"
proof -
  have inj: "inj_on id_field (set es)" using assms(1) by (simp add: distinct_map)
  have "filter (\<lambda>e. id_field e \<noteq> id_field r) es = filter (\<lambda>e. e \<noteq> r) es"
    by (rule filter_cong) (use inj assms(2) in \<open>auto dest: inj_onD\<close>)
  also have "\<dots> = removeAll r es" by (induction es) auto
  finally show ?thesis .
qed

lemma removeEntry_none:
  assumes "\<forall>e \<in> set (records db). queueName e \<noteq> Some (this_queueName this)"
  shows "removeEntry this direction db = (None, db)"
proof -
  have "getAll this db = []" using assms by (simp add: getAll_Nil_iff)
  then show ?thesis by (simp add: removeEntry_def getEndEntryFromIndex_getAll)
qed

lemma removeEntry_some:
  fixes direction :: "IDBCursorDirection option"
  assumes "wf_db db" and "getAll this db \<noteq> []"
  defines "r \<equiv> (if direction = Some Prev then last (getAll this db) else hd (getAll this db))"
  shows "removeEntry this direction db = (Some r, db\<lparr>records := removeAll r (records db)\<rparr>)"
    and "r \<in> set (records db)" and "queueName r = Some (this_queueName this)"
proof -
  have "r \<in> set (getAll this db)" using assms(2) by (simp add: r_def)
  then show in_db: "r \<in> set (records db)" and "queueName r = Some (this_queueName this)"
    by (simp_all add: getAll_set)
  have "getEndEntryFromIndex direction (IDBKeyRange_only (this_queueName this)) db = Some r"
    using assms(2) by (simp add: getEndEntryFromIndex_getAll r_def)
  then show "removeEntry this direction db = (Some r, db\<lparr>records := removeAll r (records db)\<rparr>)"
    using delete_is_removeAll[OF wf_dbD(1)[OF assms(1)] in_db]
    by (simp add: removeEntry_def deleteEntry_def db_deleteEntry_def)
qed

lemma wf_db_removeEntry:
  assumes "wf_db db"
  shows "wf_db (snd (removeEntry this direction db))"
  using assms wf_db_deleteEntry
  by (auto simp: removeEntry_def deleteEntry_def split: option.splits)

subsection \<open>Single calls\<close>

lemma step_PushEntry:
  assumes "accepted node_env entry"
  shows "step node_env (PushEntry this entry) db =
           Inr (Stored (entry\<lparr>id_field := None, queueName := Some (this_queueName this)\<rparr>),
                pushed this entry db)"
  using assms by (simp add: pushEntry_accepted assertEntry_accepted pushed_def)

lemma step_UnshiftEntry:
  assumes "accepted node_env entry" and "lowestExact db"
  shows "step node_env (UnshiftEntry this entry) db =
           Inr (Stored (entry\<lparr>id_field := (if records db = [] then None else Some (frontId db)),
                              queueName := Some (this_queueName this)\<rparr>),
                unshifted this entry db)"
proof (cases "records db = []")
  case True
  then show ?thesis using assms(1)
    by (simp add: unshiftEntry_accepted_empty assertEntry_accepted unshifted_def frontId_empty)
next
  case False
  then show ?thesis using assms
    by (simp add: unshiftEntry_accepted_nonempty assertEntry_accepted unshifted_def)
qed

lemma pushed_simps [simp]:
  "records (pushed this entry db) = stamped this (keyGenerator db) entry # records db"
  "keyGenerator (pushed this entry db) = keyGenerator db + 1"
  by (simp_all add: pushed_def)

lemma unshifted_records [simp]:
  "records (unshifted this entry db) = stamped this (frontId db) entry # records db"
  by (simp add: unshifted_def)

lemma unshifted_nonempty [simp]: "records (unshifted this entry db) \<noteq> []"
  by simp

lemma wf_db_pushed: "wf_db db \<Longrightarrow> wf_db (pushed this entry db)"
  by (rule wf_dbI) (use wf_dbD[of db] in \<open>fastforce+\<close>)

lemma wf_db_unshifted:
  assumes "wf_db db"
  shows "wf_db (unshifted this entry db)"
proof (rule wf_dbI)
  have "frontId db \<notin> id_field ` set (records db)"
    using frontId_free[of db] by (simp add: occupied_def)
  then show "distinct (map id_field (records (unshifted this entry db)))"
    using wf_dbD(1)[OF assms] by simp
next
  fix e assume e: "e \<in> set (records (unshifted this entry db))"
  show "id_field e < keyGenerator (unshifted this entry db)"
  proof (cases "records db = []")
    case True
    with e show ?thesis by (simp add: unshifted_def frontId_empty)
  next
    case False
    with e frontId_less_keyGenerator[OF assms False] wf_dbD(2)[OF assms]
    show ?thesis by (auto simp: unshifted_def)
  qed
qed

lemma getAll_pushed:
  assumes "wf_db db"
  shows "getAll that (pushed this entry db) =
           (if this_queueName this = this_queueName that
            then getAll that db @ [stamped this (keyGenerator db) entry] else getAll that db)"
proof -
  have "\<forall>e \<in> set (records db). id_field e < id_field (stamped this (keyGenerator db) entry)"
    using wf_dbD(2)[OF assms] by simp
  from getAll_Cons_highest[OF this, of that] show ?thesis
    by (simp add: pushed_def)
qed

lemma getAll_unshifted:
  "getAll that (unshifted this entry db) =
     (if this_queueName this = this_queueName that
      then stamped this (frontId db) entry # getAll that db else getAll that db)"
proof -
  have "\<forall>e \<in> set (records db). id_field (stamped this (frontId db) entry) < id_field e"
    using frontId_below[of _ db] by simp
  from getAll_Cons_lowest[OF this, of that] show ?thesis
    by (simp add: unshifted_def)
qed

lemma frontId_unshifted: "frontId (unshifted this entry db) = frontId db - 1"
proof -
  have "Min (insert (frontId db) (id_field ` set (records db))) = frontId db"
    using frontId_below[of _ db] by (intro Min_eqI) (auto simp: less_imp_le)
  then show ?thesis by (simp add: frontId_def[of "unshifted this entry db"])
qed

lemma lowest_in_range:
  assumes "numbersExact db" and "records db \<noteq> []"
  shows "\<bar>Min (set (map id_field (records db)))\<bar> \<le> 2 ^ 53"
proof -
  have "Min (set (map id_field (records db))) \<in> set (map id_field (records db))"
    using assms(2) by (intro Min_in) simp_all
  then obtain e where "e \<in> set (records db)"
    and "id_field e = Min (set (map id_field (records db)))" by auto
  with assms(1) show ?thesis by (auto simp: numbersExact_def list_all_iff)
qed

lemma unshiftEntry_in_range:
  assumes "accepted node_env entry" and "numbersExact db"
    and "snd (unshiftEntry node_env this entry db) = Inr db1"
  shows "lowestExact db"
proof (cases "records db = []")
  case True
  then show ?thesis by (simp add: lowestExact_def)
next
  case False
  let ?m = "Min (set (map id_field (records db)))"
  have a: "assertEntry node_env ''unshiftEntry'' entry = None"
    using assms(1) by (simp add: assertEntry_accepted)
  have r: "\<bar>?m\<bar> \<le> 2 ^ 53" by (rule lowest_in_range[OF assms(2) False])
  have "?m \<noteq> - 9007199254740992"
  proof
    assume "?m = - 9007199254740992"
    from unshiftEntry_at_lowest[OF a False this, of this] assms(3) show False by simp
  qed
  with r have "decrementExact ?m" by (auto simp: decrementExact_def abs_le_iff)
  then show ?thesis by (simp add: lowestExact_def)
qed

lemma wf_db_step:
  assumes "wf_db db" and "numbersExact db" and "step node_env c db = Inr (out, db')"
  shows "wf_db db'"
proof (cases c)
  case (PushEntry this entry)
  show ?thesis
  proof (cases "accepted node_env entry")
    case True
    from assms(3) step_PushEntry[OF True, of this db] have "db' = pushed this entry db"
      unfolding PushEntry by simp
    with assms(1) show ?thesis by (simp add: wf_db_pushed)
  next
    case False
    then obtain err where "assertEntry node_env ''pushEntry'' entry = Some err"
      using assertEntry_accepted[of node_env "''pushEntry''" entry]
      by (cases "assertEntry node_env ''pushEntry'' entry") auto
    with assms PushEntry show ?thesis by (simp add: pushEntry_rejected)
  qed
next
  case (UnshiftEntry this entry)
  show ?thesis
  proof (cases "accepted node_env entry")
    case True
    from assms(3) have "snd (unshiftEntry node_env this entry db) = Inr db'"
      unfolding UnshiftEntry by (auto split: prod.splits sum.splits)
    from unshiftEntry_in_range[OF True assms(2) this] have ex: "lowestExact db" .
    from assms(3) step_UnshiftEntry[OF True ex, of this] have "db' = unshifted this entry db"
      unfolding UnshiftEntry by simp
    with assms(1) show ?thesis by (simp add: wf_db_unshifted)
  next
    case False
    then obtain err where "assertEntry node_env ''unshiftEntry'' entry = Some err"
      using assertEntry_accepted[of node_env "''unshiftEntry''" entry]
      by (cases "assertEntry node_env ''unshiftEntry'' entry") auto
    with assms UnshiftEntry show ?thesis by (simp add: unshiftEntry_rejected)
  qed
next
  case (PopEntry this)
  with assms wf_db_removeEntry[OF assms(1), of this "Some Prev"] show ?thesis
    by (auto simp: popEntry_def split: prod.splits)
next
  case (ShiftEntry this)
  with assms wf_db_removeEntry[OF assms(1), of this "Some Next"] show ?thesis
    by (auto simp: shiftEntry_def split: prod.splits)
next
  case (GetAll this)
  with assms show ?thesis by simp
next
  case (DeleteEntry this k)
  with assms wf_db_deleteEntry show ?thesis by (auto simp: deleteEntry_def)
qed

lemma numbersExact_filter:
  "numbersExact db \<Longrightarrow> numbersExact (db\<lparr>records := filter P (records db)\<rparr>)"
  by (simp add: numbersExact_def list_all_iff)

lemma numbersExact_step:
  assumes "numbersExact db" and "\<bar>keyGenerator db\<bar> \<le> 2 ^ 53"
    and "step node_env c db = Inr (out, db')"
  shows "numbersExact db'"
proof (cases c)
  case (PushEntry this entry)
  show ?thesis
  proof (cases "accepted node_env entry")
    case True
    from assms(3) step_PushEntry[OF True, of this db] have "db' = pushed this entry db"
      unfolding PushEntry by simp
    with assms(1,2) show ?thesis by (simp add: numbersExact_def)
  next
    case False
    then obtain err where "assertEntry node_env ''pushEntry'' entry = Some err"
      using assertEntry_accepted[of node_env "''pushEntry''" entry]
      by (cases "assertEntry node_env ''pushEntry'' entry") auto
    with assms PushEntry show ?thesis by (simp add: pushEntry_rejected)
  qed
next
  case (UnshiftEntry this entry)
  show ?thesis
  proof (cases "accepted node_env entry")
    case True
    from assms(3) have "snd (unshiftEntry node_env this entry db) = Inr db'"
      unfolding UnshiftEntry by (auto split: prod.splits sum.splits)
    from unshiftEntry_in_range[OF True assms(1) this] have ex: "lowestExact db" .
    from assms(3) step_UnshiftEntry[OF True ex, of this] have d: "db' = unshifted this entry db"
      unfolding UnshiftEntry by simp
    have "\<bar>frontId db\<bar> \<le> 2 ^ 53"
    proof (cases "records db = []")
      case True
      with assms(2) show ?thesis by (simp add: frontId_empty)
    next
      case False
      with ex have "decrementExact (Min (set (map id_field (records db))))"
        by (simp add: lowestExact_def)
      with False show ?thesis
        by (auto simp: frontId_def decrementExact_def abs_le_iff)
    qed
    with assms(1) d show ?thesis by (simp add: numbersExact_def)
  next
    case False
    then obtain err where "assertEntry node_env ''unshiftEntry'' entry = Some err"
      using assertEntry_accepted[of node_env "''unshiftEntry''" entry]
      by (cases "assertEntry node_env ''unshiftEntry'' entry") auto
    with assms UnshiftEntry show ?thesis by (simp add: unshiftEntry_rejected)
  qed
next
  case (PopEntry this)
  with assms(1,3) numbersExact_filter[OF assms(1)] show ?thesis
    by (auto simp: popEntry_def removeEntry_def deleteEntry_def db_deleteEntry_def
        split: option.splits)
next
  case (ShiftEntry this)
  with assms(1,3) numbersExact_filter[OF assms(1)] show ?thesis
    by (auto simp: shiftEntry_def removeEntry_def deleteEntry_def db_deleteEntry_def
        split: option.splits)
next
  case (GetAll this)
  with assms show ?thesis by simp
next
  case (DeleteEntry this k)
  with assms(3) numbersExact_filter[OF assms(1)] show ?thesis
    by (auto simp: deleteEntry_def db_deleteEntry_def)
qed

lemma numbersExact_emptyDb: "numbersExact emptyDb"
  by (simp add: numbersExact_def emptyDb_def)

lemma step_keeps_records:
  assumes "wf_db db" and "step node_env c db = Inr (out, db1)" and "r \<in> set (records db1)"
  shows "r \<in> set (records db) \<or> id_field r \<notin> id_field ` set (records db)"
proof (cases c)
  case (PushEntry this entry)
  show ?thesis
  proof (cases "accepted node_env entry")
    case True
    from assms(2) step_PushEntry[OF True, of this db] have "db1 = pushed this entry db"
      unfolding PushEntry by simp
    moreover have "keyGenerator db \<notin> id_field ` set (records db)"
      using wf_dbD(2)[OF assms(1)] by fastforce
    ultimately show ?thesis using assms(3) by auto
  next
    case False
    then obtain err where "assertEntry node_env ''pushEntry'' entry = Some err"
      using assertEntry_accepted[of node_env "''pushEntry''" entry]
      by (cases "assertEntry node_env ''pushEntry'' entry") auto
    with assms PushEntry show ?thesis by (simp add: pushEntry_rejected)
  qed
next
  case (UnshiftEntry this entry)
  show ?thesis
  proof (cases "accepted node_env entry")
    case True
    from assms(2) have "snd (unshiftEntry node_env this entry db) = Inr db1"
      unfolding UnshiftEntry by (auto split: prod.splits sum.splits)
    from unshiftEntry_adds[OF True this] obtain k where
      "k \<notin> id_field ` set (records db)" "records db1 = stamped this k entry # records db"
      by blast
    then show ?thesis using assms(3) by auto
  next
    case False
    then obtain err where "assertEntry node_env ''unshiftEntry'' entry = Some err"
      using assertEntry_accepted[of node_env "''unshiftEntry''" entry]
      by (cases "assertEntry node_env ''unshiftEntry'' entry") auto
    with assms UnshiftEntry show ?thesis by (simp add: unshiftEntry_rejected)
  qed
next
  case (PopEntry this)
  with assms(2,3) show ?thesis
    by (auto simp: popEntry_def removeEntry_def deleteEntry_def db_deleteEntry_def
        split: option.splits)
next
  case (ShiftEntry this)
  with assms(2,3) show ?thesis
    by (auto simp: shiftEntry_def removeEntry_def deleteEntry_def db_deleteEntry_def
        split: option.splits)
next
  case (GetAll this)
  with assms(2,3) show ?thesis by auto
next
  case (DeleteEntry this k)
  with assms(2,3) show ?thesis by (auto simp: deleteEntry_def db_deleteEntry_def)
qed

lemma frontId_pushed:
  assumes "wf_db db"
  shows "frontId (pushed this entry db) = min (frontId db) (keyGenerator db - 1)"
proof (cases "records db = []")
  case True
  then show ?thesis by (simp add: frontId_def[of "pushed this entry db"] frontId_empty)
next
  case False
  then obtain e where e: "e \<in> set (records db)" by (cases "records db") auto
  define M where "M = Min (id_field ` set (records db))"
  have ne: "id_field ` set (records db) \<noteq> {}" using e by auto
  have "M \<le> id_field e" unfolding M_def using e by simp
  with wf_dbD(2)[OF assms e] have lt: "M < keyGenerator db" by simp
  have a: "frontId (pushed this entry db) =
             Min (insert (keyGenerator db) (id_field ` set (records db))) - 1"
    by (simp add: frontId_def)
  have b: "frontId db = M - 1" unfolding M_def using False by (simp add: frontId_def)
  have c: "Min (insert (keyGenerator db) (id_field ` set (records db))) =
             min (keyGenerator db) M"
    unfolding M_def using ne by (simp add: Min_insert)
  show ?thesis unfolding a b c using lt by simp
qed

lemma getAll_removeAll:
  "getAll this (db\<lparr>records := removeAll r (records db)\<rparr>) = removeAll r (getAll this db)"
proof -
  have "removeAll r xs = filter (\<lambda>e. e \<noteq> r) xs" for xs :: "QueueStoreEntry list"
    by (induction xs) auto
  then show ?thesis
    by (simp add: getAll_def getAllEntriesFromIndex_def ascending_filter)
      (metis (mono_tags, lifting) filter_cong)
qed

lemma wf_db_removeAll:
  assumes "wf_db db"
  shows "wf_db (db\<lparr>records := removeAll r (records db)\<rparr>)"
proof (rule wf_dbI)
  show "distinct (map id_field (records (db\<lparr>records := removeAll r (records db)\<rparr>)))"
    using wf_dbD(1)[OF assms] by (simp add: distinct_map_filter removeAll_filter_not_eq)
next
  fix e assume "e \<in> set (records (db\<lparr>records := removeAll r (records db)\<rparr>))"
  then show "id_field e < keyGenerator (db\<lparr>records := removeAll r (records db)\<rparr>)"
    using wf_dbD(2)[OF assms] by simp
qed

lemma step_PopEntry:
  assumes "wf_db db" and "getAll this db \<noteq> []"
  shows "step node_env (PopEntry this) db =
           Inr (Removed (Some (last (getAll this db))),
                db\<lparr>records := removeAll (last (getAll this db)) (records db)\<rparr>)"
  using removeEntry_some(1)[OF assms, of "Some Prev"] by (simp add: popEntry_def)

lemma step_ShiftEntry:
  assumes "wf_db db" and "getAll this db \<noteq> []"
  shows "step node_env (ShiftEntry this) db =
           Inr (Removed (Some (hd (getAll this db))),
                db\<lparr>records := removeAll (hd (getAll this db)) (records db)\<rparr>)"
  using removeEntry_some(1)[OF assms, of "Some Next"] by (simp add: shiftEntry_def)

subsection \<open>Sequences of insertions\<close>

lemma length_idsUp [simp]: "length (idsUp k n) = n"
  by (induction n arbitrary: k) simp_all

lemma length_idsDown [simp]: "length (idsDown k n) = n"
  by (induction n arbitrary: k) simp_all

lemma idsDown_nth: "i < n \<Longrightarrow> idsDown k n ! i = k - int i"
proof (induction n arbitrary: k i)
  case 0
  then show ?case by simp
next
  case (Suc n)
  then show ?case by (cases i) simp_all
qed

lemma run_Cons_step:
  "step node_env c db = Inr (out, db1) \<Longrightarrow> run node_env cs db1 = Inr (outs, db2) \<Longrightarrow>
   run node_env (c # cs) db = Inr (out # outs, db2)"
  by simp

lemma run_pushes:
  assumes "wf_db db" and "\<forall>e \<in> set es. accepted node_env e"
  shows "\<exists>outs db'. run node_env (map (PushEntry this) es) db = Inr (outs, db')
           \<and> getAll this db' =
               getAll this db @ map2 (stamped this) (idsUp (keyGenerator db) (length es)) es"
  using assms
proof (induction es arbitrary: db)
  case Nil
  then show ?case by simp
next
  case (Cons e es)
  let ?db1 = "pushed this e db"
  have acc: "accepted node_env e" using Cons.prems(2) by simp
  have wf1: "wf_db ?db1" using Cons.prems(1) by (rule wf_db_pushed)
  from Cons.IH[OF wf1] Cons.prems(2) obtain outs db' where
    r: "run node_env (map (PushEntry this) es) ?db1 = Inr (outs, db')"
    and g: "getAll this db' =
        getAll this ?db1 @ map2 (stamped this) (idsUp (keyGenerator ?db1) (length es)) es"
    by auto
  have "run node_env (map (PushEntry this) (e # es)) db =
          Inr (Stored (e\<lparr>id_field := None, queueName := Some (this_queueName this)\<rparr>) # outs, db')"
    using run_Cons_step[OF step_PushEntry[OF acc] r] by simp
  moreover have "getAll this db' =
      getAll this db @ map2 (stamped this) (idsUp (keyGenerator db) (length (e # es))) (e # es)"
    using g by (simp add: getAll_pushed[OF Cons.prems(1)])
  ultimately show ?case by blast
qed

lemma lowestExact_frontId:
  assumes "frontId db < 2 ^ 53" and "- (2 ^ 53) \<le> frontId db"
  shows "lowestExact db"
proof (cases "records db = []")
  case True
  then show ?thesis by (simp add: lowestExact_def)
next
  case False
  then have "Min (set (map id_field (records db))) = frontId db + 1"
    by (simp add: frontId_def)
  with assms False show ?thesis
    by (simp add: lowestExact_def decrementExact_def)
qed

lemma run_unshifts:
  assumes "\<forall>e \<in> set es. accepted node_env e"
    and "frontId db < 2 ^ 53" and "- (2 ^ 53) \<le> frontId db - int (length es) + 1"
  shows "\<exists>outs db'. run node_env (map (UnshiftEntry this) es) db = Inr (outs, db')
           \<and> getAll this db' =
               rev (map2 (stamped this) (idsDown (frontId db) (length es)) es) @ getAll this db"
  using assms
proof (induction es arbitrary: db)
  case Nil
  then show ?case by simp
next
  case (Cons e es)
  let ?db1 = "unshifted this e db"
  have acc: "accepted node_env e" using Cons.prems(1) by simp
  have rest: "\<forall>e \<in> set es. accepted node_env e" using Cons.prems(1) by simp
  have lo: "- (2 ^ 53) \<le> frontId db" using Cons.prems(3) by simp
  have ex: "lowestExact db" by (rule lowestExact_frontId[OF Cons.prems(2) lo])
  have hi1: "frontId ?db1 < 2 ^ 53" using Cons.prems(2) by (simp add: frontId_unshifted)
  have lo1: "- (2 ^ 53) \<le> frontId ?db1 - int (length es) + 1"
    using Cons.prems(3) by (simp add: frontId_unshifted)
  from Cons.IH[OF rest hi1 lo1] obtain outs db' where
    r: "run node_env (map (UnshiftEntry this) es) ?db1 = Inr (outs, db')"
    and g: "getAll this db' =
        rev (map2 (stamped this) (idsDown (frontId ?db1) (length es)) es) @ getAll this ?db1"
    by auto
  have "run node_env (map (UnshiftEntry this) (e # es)) db =
          Inr (Stored (e\<lparr>id_field := (if records db = [] then None else Some (frontId db)),
                        queueName := Some (this_queueName this)\<rparr>) # outs, db')"
    using run_Cons_step[OF step_UnshiftEntry[OF acc ex] r] by simp
  moreover have "getAll this db' =
      rev (map2 (stamped this) (idsDown (frontId db) (length (e # es))) (e # es)) @ getAll this db"
    using g by (simp add: getAll_unshifted frontId_unshifted)
  ultimately show ?case by blast
qed

lemma run_unshifts_ids:
  assumes "records db \<noteq> []" and "\<forall>e \<in> set es. accepted node_env e"
    and "frontId db < 2 ^ 53" and "- (2 ^ 53) \<le> frontId db - int (length es) + 1"
  shows "\<exists>db'. run node_env (map (UnshiftEntry this) es) db =
           Inr (map2 (\<lambda>k e. Stored (e\<lparr>id_field := Some k,
                                       queueName := Some (this_queueName this)\<rparr>))
                  (idsDown (frontId db) (length es)) es, db')
         \<and> map id_field (records db') =
             rev (idsDown (frontId db) (length es)) @ map id_field (records db)"
  using assms
proof (induction es arbitrary: db)
  case Nil
  then show ?case by simp
next
  case (Cons e es)
  let ?db1 = "unshifted this e db"
  have acc: "accepted node_env e" using Cons.prems(2) by simp
  have rest: "\<forall>e \<in> set es. accepted node_env e" using Cons.prems(2) by simp
  have ne1: "records ?db1 \<noteq> []" by simp
  have lo: "- (2 ^ 53) \<le> frontId db" using Cons.prems(4) by simp
  have ex: "lowestExact db" by (rule lowestExact_frontId[OF Cons.prems(3) lo])
  have hi1: "frontId ?db1 < 2 ^ 53" using Cons.prems(3) by (simp add: frontId_unshifted)
  have lo1: "- (2 ^ 53) \<le> frontId ?db1 - int (length es) + 1"
    using Cons.prems(4) by (simp add: frontId_unshifted)
  from Cons.IH[OF ne1 rest hi1 lo1] obtain db' where
    r: "run node_env (map (UnshiftEntry this) es) ?db1 =
           Inr (map2 (\<lambda>k e. Stored (e\<lparr>id_field := Some k,
                                       queueName := Some (this_queueName this)\<rparr>))
                  (idsDown (frontId ?db1) (length es)) es, db')"
    and i: "map id_field (records db') =
             rev (idsDown (frontId ?db1) (length es)) @ map id_field (records ?db1)"
    by auto
  have "run node_env (map (UnshiftEntry this) (e # es)) db =
          Inr (map2 (\<lambda>k e. Stored (e\<lparr>id_field := Some k,
                                       queueName := Some (this_queueName this)\<rparr>))
                  (idsDown (frontId db) (length (e # es))) (e # es), db')"
    using run_Cons_step[OF step_UnshiftEntry[OF acc ex] r] Cons.prems(1)
    by (simp add: frontId_unshifted)
  moreover have "map id_field (records db') =
             rev (idsDown (frontId db) (length (e # es))) @ map id_field (records db)"
    using i by (simp add: frontId_unshifted)
  ultimately show ?case by blast
qed

lemma run_interleaved_pushes:
  assumes "wf_db db" and "\<forall>(s, e) \<in> set calls. accepted node_env e"
  shows "\<exists>outs db'. run node_env (map (\<lambda>(s, e). PushEntry s e) calls) db = Inr (outs, db')
           \<and> records db' =
               rev (map (\<lambda>(k, s, e). stamped s k e)
                      (zip (idsUp (keyGenerator db) (length calls)) calls)) @ records db
           \<and> getAll B db' =
               getAll B db @
               map (\<lambda>(k, s, e). stamped s k e)
                 (filter (\<lambda>(k, s, e). this_queueName s = this_queueName B)
                    (zip (idsUp (keyGenerator db) (length calls)) calls))"
  using assms
proof (induction calls arbitrary: db)
  case Nil
  then show ?case by simp
next
  case (Cons c calls)
  obtain s e where c: "c = (s, e)" by (cases c)
  let ?db1 = "pushed s e db"
  have acc: "accepted node_env e" using Cons.prems(2) c by simp
  have wf1: "wf_db ?db1" using Cons.prems(1) by (rule wf_db_pushed)
  have rest: "\<forall>(s, e) \<in> set calls. accepted node_env e" using Cons.prems(2) by simp
  from Cons.IH[OF wf1 rest] obtain outs db' where
    r: "run node_env (map (\<lambda>(s, e). PushEntry s e) calls) ?db1 = Inr (outs, db')"
    and recs: "records db' =
               rev (map (\<lambda>(k, s, e). stamped s k e)
                      (zip (idsUp (keyGenerator ?db1) (length calls)) calls)) @ records ?db1"
    and g: "getAll B db' =
               getAll B ?db1 @
               map (\<lambda>(k, s, e). stamped s k e)
                 (filter (\<lambda>(k, s, e). this_queueName s = this_queueName B)
                    (zip (idsUp (keyGenerator ?db1) (length calls)) calls))"
    by blast
  have "run node_env (map (\<lambda>(s, e). PushEntry s e) (c # calls)) db =
          Inr (Stored (e\<lparr>id_field := None, queueName := Some (this_queueName s)\<rparr>) # outs, db')"
    using run_Cons_step[OF step_PushEntry[OF acc] r] c by simp
  moreover have "records db' =
               rev (map (\<lambda>(k, s, e). stamped s k e)
                      (zip (idsUp (keyGenerator db) (length (c # calls))) (c # calls))) @ records db"
    using recs c by simp
  moreover have "getAll B db' =
               getAll B db @
               map (\<lambda>(k, s, e). stamped s k e)
                 (filter (\<lambda>(k, s, e). this_queueName s = this_queueName B)
                    (zip (idsUp (keyGenerator db) (length (c # calls))) (c # calls)))"
    using g c by (simp add: getAll_pushed[OF Cons.prems(1)])
  ultimately show ?case by blast
qed

lemma wf_db_lowDb: "wf_db lowDb"
  by (simp add: wf_db_def lowDb_def)

lemma lowDb_facts:
  "records lowDb \<noteq> []"
  "Min (set (map id_field (records lowDb))) = - 9007199254740992"
  by (simp_all add: lowDb_def)


lemma decrementExact_3: "decrementExact 3"
  by (simp add: decrementExact_def)

section \<open>Single insertions\<close>

text \<open>
  Claim C6. For every entry that gets past the development-build assertions,
  \<^verbatim>\<open>pushEntry(entry)\<close> hands to the entry store's \<open>addEntry\<close> the entry with its id
  removed and its queue name set to the name the store is bound to. The call does not
  throw, and the database after it is the database before it with exactly one record
  added: the caller's payload under the store's queue name, with the id taken from the
  auto-incrementing sequence whatever id the caller supplied. The records stored before
  are all still there, unchanged, and in a well-formed database the new id was not in
  use. (The method has no return value: the model returns the entry object and the
  outcome only.)
\<close>

theorem pushEntry_effect:
  assumes "accepted node_env entry"
  shows "snd (pushEntry node_env this entry db) =
           addEntry (entry\<lparr>id_field := None, queueName := Some (this_queueName this)\<rparr>) db
         \<and> snd (pushEntry node_env this entry db) =
           Inr (db\<lparr>records := stamped this (keyGenerator db) entry # records db,
                   keyGenerator := keyGenerator db + 1\<rparr>)
         \<and> (wf_db db \<longrightarrow> \<not> occupied (keyGenerator db) db)"
proof -
  have a: "assertEntry node_env ''pushEntry'' entry = None"
    using assms by (simp add: assertEntry_accepted)
  have "snd (pushEntry node_env this entry db) =
          addEntry (entry\<lparr>id_field := None, queueName := Some (this_queueName this)\<rparr>) db"
    using a by (simp add: pushEntry_def Let_def)
  moreover have "snd (pushEntry node_env this entry db) =
           Inr (db\<lparr>records := stamped this (keyGenerator db) entry # records db,
                   keyGenerator := keyGenerator db + 1\<rparr>)"
    by (simp add: pushEntry_accepted[OF a])
  moreover have "wf_db db \<longrightarrow> \<not> occupied (keyGenerator db) db"
    using wf_dbD(2)[of db] by (fastforce simp: occupied_def)
  ultimately show ?thesis by blast
qed

theorem pushEntry_effect_witness:
  "accepted ''development'' ((example_entry ''/a'')\<lparr>id_field := Some 7\<rparr>) \<and> wf_db emptyDb \<and>
   snd (pushEntry ''development'' (new_QueueStore ''Q'') ((example_entry ''/a'')\<lparr>id_field := Some 7\<rparr>) emptyDb) =
     Inr \<lparr>records = [stamped (new_QueueStore ''Q'') 1 (example_entry ''/a'')], keyGenerator = 2\<rparr>
   \<and> \<not> occupied 1 emptyDb"
  using pushEntry_effect[of "''development''" "(example_entry ''/a'')\<lparr>id_field := Some 7\<rparr>" "new_QueueStore ''Q''" emptyDb]
  by (simp add: accepted_def wf_db_def emptyDb_def stamped_def addEntry_def identify_def
      new_QueueStore_def occupied_def)

text \<open>
  Claim C1, for the ids on which the subtraction is exact. For every call of \<^verbatim>\<open>unshiftEntry(entry)\<close> that gets past the
  development-build assertions: if the database holds a record of any queue, the entry is
  handed to \<open>addEntry\<close> under the id that \<^verbatim>\<open>firstEntry.id - 1\<close> computes from the
  lowest id \<open>m\<close> of the whole database; when \<open>- 2^53 < m \<le> 2^53\<close> that id is exactly
  \<open>m - 1\<close>, the addition succeeds, and the id is strictly below the id of every record
  of the database. If the database is empty, the entry is handed to \<open>addEntry\<close> with
  its id unset, and the record gets the id of the auto-incrementing sequence. In both
  cases the queue name of the entry is the name the store is bound to.
\<close>

theorem unshiftEntry_effect:
  assumes "accepted node_env entry"
  shows "(records db \<noteq> [] \<longrightarrow>
            snd (unshiftEntry node_env this entry db) =
              addEntry
                (entry\<lparr>id_field :=
                          Some (numberSubtract (Min (set (map id_field (records db)))) 1),
                       queueName := Some (this_queueName this)\<rparr>) db
          \<and> (decrementExact (Min (set (map id_field (records db)))) \<longrightarrow>
                numberSubtract (Min (set (map id_field (records db)))) 1 =
                  Min (set (map id_field (records db))) - 1
              \<and> snd (unshiftEntry node_env this entry db) =
                  Inr (db\<lparr>records :=
                         stamped this (Min (set (map id_field (records db))) - 1) entry
                         # records db\<rparr>)
              \<and> (\<forall>e \<in> set (records db).
                    Min (set (map id_field (records db))) - 1 < id_field e)))
       \<and> (records db = [] \<longrightarrow>
            snd (unshiftEntry node_env this entry db) =
              addEntry (entry\<lparr>id_field := None, queueName := Some (this_queueName this)\<rparr>) db
          \<and> snd (unshiftEntry node_env this entry db) =
              Inr (db\<lparr>records := [stamped this (keyGenerator db) entry],
                      keyGenerator := keyGenerator db + 1\<rparr>))"
proof -
  have b: "assertEntry node_env ''unshiftEntry'' entry = None"
    using assms by (simp add: assertEntry_accepted)
  show ?thesis
  proof (cases "records db = []")
    case True
    have "getFirstEntry db = None" using True by (simp add: getFirstEntry_None_iff)
    then have "snd (unshiftEntry node_env this entry db) =
              addEntry (entry\<lparr>id_field := None, queueName := Some (this_queueName this)\<rparr>) db"
      using b by (simp add: unshiftEntry_def Let_def)
    then show ?thesis using True
      by (simp add: unshiftEntry_accepted_empty[OF b])
  next
    case False
    define M where "M = Min (set (map id_field (records db)))"
    have m: "frontId db = M - 1"
      using False by (simp add: frontId_def M_def)
    have 1: "snd (unshiftEntry node_env this entry db) =
              addEntry (entry\<lparr>id_field := Some (numberSubtract M 1),
                              queueName := Some (this_queueName this)\<rparr>) db"
      unfolding M_def by (simp add: unshiftEntry_accepted_any[OF b False])
    have 2: "numberSubtract M 1 = M - 1
        \<and> snd (unshiftEntry node_env this entry db) =
              Inr (db\<lparr>records := stamped this (M - 1) entry # records db\<rparr>)
        \<and> (\<forall>e \<in> set (records db). M - 1 < id_field e)" if ex: "decrementExact M"
    proof -
      have le: "lowestExact db" using ex False by (simp add: lowestExact_def M_def)
      have "snd (unshiftEntry node_env this entry db) =
              Inr (db\<lparr>records := stamped this (frontId db) entry # records db\<rparr>)"
        by (simp add: unshiftEntry_accepted_nonempty[OF b False le])
      moreover have "\<forall>e \<in> set (records db). frontId db < id_field e"
        using frontId_below by blast
      ultimately show ?thesis unfolding m using numberSubtract_exact[OF ex] by blast
    qed
    from 1 2 False show ?thesis unfolding M_def by blast
  qed
qed

theorem unshiftEntry_effect_witness:
  "accepted ''development'' (example_entry ''/a'') \<and>
   records example_db \<noteq> [] \<and>
   decrementExact (Min (set (map id_field (records example_db)))) \<and>
   snd (unshiftEntry ''development'' (new_QueueStore ''A'') (example_entry ''/a'') example_db) =
     Inr (example_db\<lparr>records :=
            stamped (new_QueueStore ''A'') 2 (example_entry ''/a'') # records example_db\<rparr>) \<and>
   records emptyDb = [] \<and>
   snd (unshiftEntry ''development'' (new_QueueStore ''A'') (example_entry ''/a'') emptyDb) =
     Inr \<lparr>records = [stamped (new_QueueStore ''A'') 1 (example_entry ''/a'')],
          keyGenerator = 2\<rparr>"
proof -
  have h: "accepted ''development'' (example_entry ''/a'')" by simp
  have ne: "records example_db \<noteq> []" by (simp add: example_db_def)
  have m3: "Min (set (map id_field (records example_db))) = 3"
    by (simp add: example_db_def)
  have ex: "decrementExact (Min (set (map id_field (records example_db))))"
    unfolding m3 by (rule decrementExact_3)
  have e: "records emptyDb = []" by (simp add: emptyDb_def)
  have "snd (unshiftEntry ''development'' (new_QueueStore ''A'') (example_entry ''/a'') example_db) =
     Inr (example_db\<lparr>records :=
            stamped (new_QueueStore ''A'') (Min (set (map id_field (records example_db))) - 1)
              (example_entry ''/a'') # records example_db\<rparr>)"
    using unshiftEntry_effect[OF h, of example_db "new_QueueStore ''A''",
        THEN conjunct1, rule_format, OF ne, THEN conjunct2, rule_format, OF ex,
        THEN conjunct2, THEN conjunct1] .
  then have 1: "snd (unshiftEntry ''development'' (new_QueueStore ''A'') (example_entry ''/a'') example_db) =
     Inr (example_db\<lparr>records :=
            stamped (new_QueueStore ''A'') 2 (example_entry ''/a'') # records example_db\<rparr>)"
    unfolding m3 by simp
  have 2: "snd (unshiftEntry ''development'' (new_QueueStore ''A'') (example_entry ''/a'') emptyDb) =
     Inr \<lparr>records = [stamped (new_QueueStore ''A'') 1 (example_entry ''/a'')],
          keyGenerator = 2\<rparr>"
    using unshiftEntry_effect[OF h, of emptyDb "new_QueueStore ''A''",
        THEN conjunct2, rule_format, OF e, THEN conjunct2]
    by (simp add: emptyDb_def)
  from h ne ex 1 e 2 show ?thesis by blast
qed

text \<open>
  Without the bound on the lowest id the statement fails. On a well-formed database whose
  lowest id is \<open>- 2^53\<close>, the subtraction returns \<open>- 2^53\<close> again, that id is in use,
  and the call throws: no entry is persisted.
\<close>

theorem unshiftEntry_effect_counterexample:
  "accepted ''production'' (example_entry ''/b'') \<and> wf_db lowDb \<and> records lowDb \<noteq> [] \<and>
   snd (unshiftEntry ''production'' (new_QueueStore ''Q'') (example_entry ''/b'') lowDb) =
     Inl ConstraintError"
proof -
  have a: "assertEntry ''production'' ''unshiftEntry'' (example_entry ''/b'') = None"
    by (simp add: assertEntry_accepted)
  show ?thesis
    using wf_db_lowDb lowDb_facts(1)
    by (simp add: unshiftEntry_at_lowest[OF a lowDb_facts])
qed




section \<open>Removal and deletion\<close>

text \<open>
  Claim C3. In every well-formed database: when some record carries the queue name the
  store is bound to, \<^verbatim>\<open>popEntry()\<close> returns the record with the highest id among the
  records of that queue name, \<^verbatim>\<open>shiftEntry()\<close> returns the one with the lowest id, and
  the database after the call is the database before it without the returned record;
  when no record carries that queue name, each returns nothing (\<open>None\<close> stands for
  \<^verbatim>\<open>undefined\<close>) and leaves the database as it was.
\<close>

theorem popEntry_shiftEntry_ends:
  assumes "wf_db db"
  shows "(if \<exists>e \<in> set (records db). queueName e = Some (this_queueName this)
          then (\<exists>r. popEntry this db = (Some r, db\<lparr>records := removeAll r (records db)\<rparr>)
                    \<and> r \<in> set (records db) \<and> queueName r = Some (this_queueName this)
                    \<and> (\<forall>e \<in> set (records db).
                          queueName e = Some (this_queueName this) \<longrightarrow> id_field e \<le> id_field r))
             \<and> (\<exists>r. shiftEntry this db = (Some r, db\<lparr>records := removeAll r (records db)\<rparr>)
                    \<and> r \<in> set (records db) \<and> queueName r = Some (this_queueName this)
                    \<and> (\<forall>e \<in> set (records db).
                          queueName e = Some (this_queueName this) \<longrightarrow> id_field r \<le> id_field e))
          else popEntry this db = (None, db) \<and> shiftEntry this db = (None, db))"
proof (cases "\<exists>e \<in> set (records db). queueName e = Some (this_queueName this)")
  case False
  then have "\<forall>e \<in> set (records db). queueName e \<noteq> Some (this_queueName this)" by blast
  from removeEntry_none[OF this] False show ?thesis
    by (simp add: popEntry_def shiftEntry_def)
next
  case True
  then have ne: "getAll this db \<noteq> []" by (simp add: getAll_Nil_iff)
  have mem: "e \<in> set (getAll this db)"
    if "e \<in> set (records db)" "queueName e = Some (this_queueName this)" for e
    using that by (simp add: getAll_set)
  let ?hi = "last (getAll this db)" and ?lo = "hd (getAll this db)"
  have "popEntry this db = (Some ?hi, db\<lparr>records := removeAll ?hi (records db)\<rparr>)"
    and "?hi \<in> set (records db)" and "queueName ?hi = Some (this_queueName this)"
    using removeEntry_some[OF assms ne, of "Some Prev"] by (simp_all add: popEntry_def)
  moreover have "\<forall>e \<in> set (records db).
      queueName e = Some (this_queueName this) \<longrightarrow> id_field e \<le> id_field ?hi"
    using last_getAll_highest mem by blast
  moreover have "shiftEntry this db = (Some ?lo, db\<lparr>records := removeAll ?lo (records db)\<rparr>)"
    and "?lo \<in> set (records db)" and "queueName ?lo = Some (this_queueName this)"
    using removeEntry_some[OF assms ne, of "Some Next"] by (simp_all add: shiftEntry_def)
  moreover have "\<forall>e \<in> set (records db).
      queueName e = Some (this_queueName this) \<longrightarrow> id_field ?lo \<le> id_field e"
    using hd_getAll_lowest mem by blast
  ultimately show ?thesis using True by (simp only: if_True) blast
qed

theorem popEntry_shiftEntry_ends_witness:
  "wf_db example_db \<and>
   popEntry (new_QueueStore ''A'') example_db =
     (Some (stamped (new_QueueStore ''A'') 5 (example_entry ''/z'')),
      \<lparr>records = [stamped (new_QueueStore ''B'') 3 (example_entry ''/x''),
                  stamped (new_QueueStore ''A'') 4 (example_entry ''/y'')],
       keyGenerator = 6\<rparr>) \<and>
   shiftEntry (new_QueueStore ''A'') example_db =
     (Some (stamped (new_QueueStore ''A'') 4 (example_entry ''/y'')),
      \<lparr>records = [stamped (new_QueueStore ''B'') 3 (example_entry ''/x''),
                  stamped (new_QueueStore ''A'') 5 (example_entry ''/z'')],
       keyGenerator = 6\<rparr>) \<and>
   popEntry (new_QueueStore ''C'') example_db = (None, example_db) \<and>
   shiftEntry (new_QueueStore ''C'') example_db = (None, example_db)"
proof -
  have A: "\<exists>e \<in> set (records example_db). queueName e = Some (this_queueName (new_QueueStore ''A''))"
    by (simp add: example_db_def new_QueueStore_def)
  have C: "\<not> (\<exists>e \<in> set (records example_db). queueName e = Some (this_queueName (new_QueueStore ''C'')))"
    by (simp add: example_db_def new_QueueStore_def)
  from popEntry_shiftEntry_ends[OF wf_db_example_db, of "new_QueueStore ''A''"] A
  obtain hi lo where
    hi: "popEntry (new_QueueStore ''A'') example_db =
          (Some hi, example_db\<lparr>records := removeAll hi (records example_db)\<rparr>)"
      "hi \<in> set (records example_db)" "queueName hi = Some (this_queueName (new_QueueStore ''A''))"
      "\<forall>e \<in> set (records example_db).
          queueName e = Some (this_queueName (new_QueueStore ''A'')) \<longrightarrow> id_field e \<le> id_field hi"
    and lo: "shiftEntry (new_QueueStore ''A'') example_db =
          (Some lo, example_db\<lparr>records := removeAll lo (records example_db)\<rparr>)"
      "lo \<in> set (records example_db)" "queueName lo = Some (this_queueName (new_QueueStore ''A''))"
      "\<forall>e \<in> set (records example_db).
          queueName e = Some (this_queueName (new_QueueStore ''A'')) \<longrightarrow> id_field lo \<le> id_field e"
    by (simp only: if_True) blast
  have "hi = stamped (new_QueueStore ''A'') 5 (example_entry ''/z'')"
    using hi(2-4) by (auto simp: example_db_def new_QueueStore_def)
  with hi(1) have 1: "popEntry (new_QueueStore ''A'') example_db =
     (Some (stamped (new_QueueStore ''A'') 5 (example_entry ''/z'')),
      \<lparr>records = [stamped (new_QueueStore ''B'') 3 (example_entry ''/x''),
                  stamped (new_QueueStore ''A'') 4 (example_entry ''/y'')],
       keyGenerator = 6\<rparr>)"
    by (simp add: example_db_def stamped_def new_QueueStore_def)
  have "lo = stamped (new_QueueStore ''A'') 4 (example_entry ''/y'')"
    using lo(2-4) by (auto simp: example_db_def new_QueueStore_def)
  with lo(1) have 2: "shiftEntry (new_QueueStore ''A'') example_db =
     (Some (stamped (new_QueueStore ''A'') 4 (example_entry ''/y'')),
      \<lparr>records = [stamped (new_QueueStore ''B'') 3 (example_entry ''/x''),
                  stamped (new_QueueStore ''A'') 5 (example_entry ''/z'')],
       keyGenerator = 6\<rparr>)"
    by (simp add: example_db_def stamped_def new_QueueStore_def)
  from popEntry_shiftEntry_ends[OF wf_db_example_db, of "new_QueueStore ''C''"] C
  have 3: "popEntry (new_QueueStore ''C'') example_db = (None, example_db) \<and>
   shiftEntry (new_QueueStore ''C'') example_db = (None, example_db)"
    by (simp only: if_False)
  from wf_db_example_db 1 2 3 show ?thesis by blast
qed

text \<open>
  Claim C8. On a queue without records, any number of \<^verbatim>\<open>popEntry()\<close> and
  \<^verbatim>\<open>shiftEntry()\<close> calls, in any order, return nothing every time, none of them
  throws, and the database stays as it was; the queue is therefore still empty.
\<close>

theorem remove_from_empty_queue:
  assumes "\<forall>e \<in> set (records db). queueName e \<noteq> Some (this_queueName this)"
    and "\<forall>c \<in> set calls. c = PopEntry this \<or> c = ShiftEntry this"
  shows "run node_env calls db = Inr (map (\<lambda>c. Removed None) calls, db)"
  using assms(2)
proof (induction calls)
  case Nil
  then show ?case by simp
next
  case (Cons c calls)
  have "step node_env c db = Inr (Removed None, db)"
    using Cons.prems removeEntry_none[OF assms(1)]
    by (auto simp: popEntry_def shiftEntry_def)
  moreover have "run node_env calls db = Inr (map (\<lambda>c. Removed None) calls, db)"
    using Cons by simp
  ultimately show ?case by simp
qed

theorem remove_from_empty_queue_witness:
  "getAll (new_QueueStore ''C'') example_db = [] \<and>
   run ''development''
     [PopEntry (new_QueueStore ''C''), ShiftEntry (new_QueueStore ''C''),
      PopEntry (new_QueueStore ''C'')] example_db =
   Inr ([Removed None, Removed None, Removed None], example_db)"
proof -
  have h: "\<forall>e \<in> set (records example_db). queueName e \<noteq> Some (this_queueName (new_QueueStore ''C''))"
    by (simp add: example_db_def new_QueueStore_def)
  have g: "getAll (new_QueueStore ''C'') example_db = []"
    using h by (simp add: getAll_Nil_iff)
  show ?thesis
    using g remove_from_empty_queue[OF h,
        of "[PopEntry (new_QueueStore ''C''), ShiftEntry (new_QueueStore ''C''),
             PopEntry (new_QueueStore ''C'')]" "''development''"]
    by simp
qed

text \<open>
  Claim C4. For every id \<open>k\<close>, \<^verbatim>\<open>deleteEntry(k)\<close> on any store \<open>B\<close> leaves exactly
  the records whose id is not \<open>k\<close>: the queue name of the record plays no part and
  neither does the name \<open>B\<close> is bound to. In particular an entry pushed through a store
  \<open>A\<close> shows in \<open>A\<close>'s \<^verbatim>\<open>getAll()\<close>, and after \<^verbatim>\<open>deleteEntry\<close> with its id on any
  store \<open>B\<close> (bound to another queue or not) it no longer does: \<open>A\<close>'s
  \<^verbatim>\<open>getAll()\<close> is what it was before the push.
\<close>

theorem deleteEntry_unchecked:
  assumes "wf_db db" and "accepted node_env entry"
  shows "records (deleteEntry B k db) = filter (\<lambda>e. id_field e \<noteq> k) (records db)
       \<and> keyGenerator (deleteEntry B k db) = keyGenerator db
       \<and> (\<exists>db1. snd (pushEntry node_env A entry db) = Inr db1
             \<and> stamped A (keyGenerator db) entry \<in> set (getAll A db1)
             \<and> stamped A (keyGenerator db) entry \<notin> set (getAll A (deleteEntry B (keyGenerator db) db1))
             \<and> getAll A (deleteEntry B (keyGenerator db) db1) = getAll A db)"
proof -
  let ?r = "stamped A (keyGenerator db) entry"
  let ?db1 = "db\<lparr>records := ?r # records db, keyGenerator := keyGenerator db + 1\<rparr>"
  have a: "assertEntry node_env ''pushEntry'' entry = None"
    using assms(2) by (simp add: assertEntry_accepted)
  have below: "\<forall>e \<in> set (records db). id_field e < id_field ?r"
    using wf_dbD(2)[OF assms(1)] by simp
  have push: "snd (pushEntry node_env A entry db) = Inr ?db1"
    by (simp add: pushEntry_accepted[OF a])
  have g0: "getAll A (db\<lparr>records := ?r # records db\<rparr>) = getAll A db @ [?r]"
    using getAll_Cons_highest[OF below, of A] by simp
  then have g1: "getAll A ?db1 = getAll A db @ [?r]" by simp
  have old: "\<forall>e \<in> set (getAll A db). id_field e \<noteq> keyGenerator db"
    using wf_dbD(2)[OF assms(1)] by (fastforce simp: getAll_set)
  have g2: "getAll A (deleteEntry B (keyGenerator db) ?db1) = getAll A db"
    using old by (simp add: getAll_deleteEntry g0)
  have "?r \<notin> set (getAll A db)" using old by auto
  with push g1 g2 show ?thesis
    by (simp add: deleteEntry_def db_deleteEntry_def)
qed

theorem deleteEntry_unchecked_witness:
  "wf_db example_db \<and> accepted ''development'' (example_entry ''/a'') \<and>
   snd (pushEntry ''development'' (new_QueueStore ''A'') (example_entry ''/a'') example_db) =
     Inr (pushed (new_QueueStore ''A'') (example_entry ''/a'') example_db) \<and>
   getAll (new_QueueStore ''A'') (pushed (new_QueueStore ''A'') (example_entry ''/a'') example_db) =
     [stamped (new_QueueStore ''A'') 4 (example_entry ''/y''),
      stamped (new_QueueStore ''A'') 5 (example_entry ''/z''),
      stamped (new_QueueStore ''A'') 6 (example_entry ''/a'')] \<and>
   getAll (new_QueueStore ''A'')
     (deleteEntry (new_QueueStore ''B'') 6
        (pushed (new_QueueStore ''A'') (example_entry ''/a'') example_db)) =
     [stamped (new_QueueStore ''A'') 4 (example_entry ''/y''),
      stamped (new_QueueStore ''A'') 5 (example_entry ''/z'')]"
proof -
  have h: "accepted ''development'' (example_entry ''/a'')" by simp
  have k: "keyGenerator example_db = 6" by (simp add: example_db_def)
  have g: "getAll (new_QueueStore ''A'') example_db =
     [stamped (new_QueueStore ''A'') 4 (example_entry ''/y''),
      stamped (new_QueueStore ''A'') 5 (example_entry ''/z'')]"
    by (simp add: getAll_def getAllEntriesFromIndex_def ascending_def example_db_def
        new_QueueStore_def stamped_def)
  from deleteEntry_unchecked[OF wf_db_example_db h, of "new_QueueStore ''B''" 6 "new_QueueStore ''A''"]
  obtain db1 where
    p: "snd (pushEntry ''development'' (new_QueueStore ''A'') (example_entry ''/a'') example_db) = Inr db1"
    and d: "getAll (new_QueueStore ''A'') (deleteEntry (new_QueueStore ''B'') 6 db1) =
            getAll (new_QueueStore ''A'') example_db"
    unfolding k by blast
  have db1: "db1 = pushed (new_QueueStore ''A'') (example_entry ''/a'') example_db"
    using p by (simp add: pushEntry_accepted assertEntry_accepted pushed_def)
  have g1: "getAll (new_QueueStore ''A'') (pushed (new_QueueStore ''A'') (example_entry ''/a'') example_db) =
     [stamped (new_QueueStore ''A'') 4 (example_entry ''/y''),
      stamped (new_QueueStore ''A'') 5 (example_entry ''/z''),
      stamped (new_QueueStore ''A'') 6 (example_entry ''/a'')]"
    by (simp add: getAll_pushed[OF wf_db_example_db] g k)
  from wf_db_example_db h p d g g1 show ?thesis unfolding db1 by simp
qed

section \<open>Order within a queue\<close>

text \<open>
  Claim C2, for the ids on which the subtraction is exact. From any well-formed database, with entries that get past the
  development-build assertions: after a sequence of \<^verbatim>\<open>pushEntry\<close> calls on one store,
  \<^verbatim>\<open>getAll()\<close> on that store lists what it listed before followed by the pushed
  entries in the order of the calls (they carry the successive ids of the
  auto-incrementing sequence). After a sequence of \<open>n\<close> \<^verbatim>\<open>unshiftEntry\<close> calls whose
  ids \<open>f\<close>, \<open>f - 1\<close>, ..., \<open>f - n + 1\<close> (with \<open>f\<close> one below the lowest id of the
  database, or the value of the counter when the database is empty) lie between
  \<open>- 2^53\<close> and \<open>2^53 - 1\<close>, \<^verbatim>\<open>getAll()\<close> lists the unshifted entries in the reverse
  of the order of the calls, the most recent first, followed by what it listed before. No
  call of either sequence throws. On a queue that was empty the list is exactly the
  inserted entries.
\<close>

theorem getAll_order:
  assumes "wf_db db" and "\<forall>e \<in> set es. accepted node_env e"
  shows "(\<exists>outs db'. run node_env (map (PushEntry this) es) db = Inr (outs, db')
           \<and> getAll this db' =
               getAll this db @ map2 (stamped this) (idsUp (keyGenerator db) (length es)) es)
       \<and> (frontId db < 2 ^ 53 \<and> - (2 ^ 53) \<le> frontId db - int (length es) + 1 \<longrightarrow>
           (\<exists>outs db'. run node_env (map (UnshiftEntry this) es) db = Inr (outs, db')
             \<and> getAll this db' =
                 rev (map2 (stamped this) (idsDown (frontId db) (length es)) es)
                 @ getAll this db))"
  using run_pushes[OF assms] run_unshifts[OF assms(2)] by blast

theorem getAll_order_witness:
  "wf_db example_db \<and>
   accepted ''development'' (example_entry ''/a'') \<and>
   accepted ''development'' (example_entry ''/b'') \<and>
   frontId example_db < 2 ^ 53 \<and>
   - (2 ^ 53) \<le> frontId example_db - 2 + 1 \<and>
   (\<exists>outs db'. run ''development''
        (map (PushEntry (new_QueueStore ''A'')) [example_entry ''/a'', example_entry ''/b''])
        example_db = Inr (outs, db') \<and>
      getAll (new_QueueStore ''A'') db' =
        [stamped (new_QueueStore ''A'') 4 (example_entry ''/y''),
         stamped (new_QueueStore ''A'') 5 (example_entry ''/z''),
         stamped (new_QueueStore ''A'') 6 (example_entry ''/a''),
         stamped (new_QueueStore ''A'') 7 (example_entry ''/b'')]) \<and>
   (\<exists>outs db'. run ''development''
        (map (UnshiftEntry (new_QueueStore ''A'')) [example_entry ''/a'', example_entry ''/b''])
        example_db = Inr (outs, db') \<and>
      getAll (new_QueueStore ''A'') db' =
        [stamped (new_QueueStore ''A'') 1 (example_entry ''/b''),
         stamped (new_QueueStore ''A'') 2 (example_entry ''/a''),
         stamped (new_QueueStore ''A'') 4 (example_entry ''/y''),
         stamped (new_QueueStore ''A'') 5 (example_entry ''/z'')])"
proof -
  let ?es = "[example_entry ''/a'', example_entry ''/b'']"
  have h: "\<forall>e \<in> set ?es. accepted ''development'' e" by simp
  have k: "keyGenerator example_db = 6" by (simp add: example_db_def)
  have f: "frontId example_db = 2" by (simp add: frontId_def example_db_def)
  have g: "getAll (new_QueueStore ''A'') example_db =
     [stamped (new_QueueStore ''A'') 4 (example_entry ''/y''),
      stamped (new_QueueStore ''A'') 5 (example_entry ''/z'')]"
    by (simp add: getAll_def getAllEntriesFromIndex_def ascending_def example_db_def
        new_QueueStore_def stamped_def)
  have n: "length ?es = Suc (Suc 0)" by simp
  have rng: "frontId example_db < 2 ^ 53 \<and> - (2 ^ 53) \<le> frontId example_db - int (length ?es) + 1"
    unfolding f by simp
  note T = getAll_order[OF wf_db_example_db h, of "new_QueueStore ''A''"]
  have 1: "\<exists>outs db'. run ''development'' (map (PushEntry (new_QueueStore ''A'')) ?es)
        example_db = Inr (outs, db') \<and>
      getAll (new_QueueStore ''A'') db' =
        [stamped (new_QueueStore ''A'') 4 (example_entry ''/y''),
         stamped (new_QueueStore ''A'') 5 (example_entry ''/z''),
         stamped (new_QueueStore ''A'') 6 (example_entry ''/a''),
         stamped (new_QueueStore ''A'') 7 (example_entry ''/b'')]"
    using T[THEN conjunct1] unfolding k g n by simp
  have 2: "\<exists>outs db'. run ''development'' (map (UnshiftEntry (new_QueueStore ''A'')) ?es)
        example_db = Inr (outs, db') \<and>
      getAll (new_QueueStore ''A'') db' =
        [stamped (new_QueueStore ''A'') 1 (example_entry ''/b''),
         stamped (new_QueueStore ''A'') 2 (example_entry ''/a''),
         stamped (new_QueueStore ''A'') 4 (example_entry ''/y''),
         stamped (new_QueueStore ''A'') 5 (example_entry ''/z'')]"
    using T[THEN conjunct2, rule_format, OF rng] unfolding f g n by simp
  have r1: "frontId example_db < 2 ^ 53" and r2: "- (2 ^ 53) \<le> frontId example_db - 2 + 1"
    unfolding f by simp_all
  from wf_db_example_db r1 r2 1 2 show ?thesis by simp
qed

text \<open>
  Without the bound on the ids the statement about unshifts fails. On a well-formed
  database whose queue \<open>Q\<close> holds one entry, with the id \<open>- 2^53\<close>, a sequence of one
  \<^verbatim>\<open>unshiftEntry\<close> call on the store of \<open>Q\<close> throws, and \<^verbatim>\<open>getAll()\<close> never lists
  the entry.
\<close>

theorem getAll_order_counterexample:
  "wf_db lowDb \<and> accepted ''production'' (example_entry ''/b'') \<and>
   getAll (new_QueueStore ''Q'') lowDb =
     [stamped (new_QueueStore ''Q'') (- 9007199254740992) (example_entry ''/a'')] \<and>
   run ''production'' (map (UnshiftEntry (new_QueueStore ''Q'')) [example_entry ''/b'']) lowDb =
     Inl ConstraintError"
proof -
  have a: "assertEntry ''production'' ''unshiftEntry'' (example_entry ''/b'') = None"
    by (simp add: assertEntry_accepted)
  have g: "getAll (new_QueueStore ''Q'') lowDb =
     [stamped (new_QueueStore ''Q'') (- 9007199254740992) (example_entry ''/a'')]"
    by (simp add: getAll_def getAllEntriesFromIndex_def ascending_def lowDb_def
        new_QueueStore_def stamped_def)
  have "run ''production'' (map (UnshiftEntry (new_QueueStore ''Q'')) [example_entry ''/b'']) lowDb =
     Inl ConstraintError"
    by (simp add: unshiftEntry_at_lowest[OF a lowDb_facts])
  with wf_db_lowDb g show ?thesis by simp
qed

text \<open>
  Claim C9, with the lower bound of the ids. The ids \<^verbatim>\<open>unshiftEntry\<close> assigns are not kept positive: no
  method checks for zero or negative ids. On a database that is not empty, with lowest id
  \<open>m \<le> 2^53\<close>, a sequence of \<open>n\<close> \<^verbatim>\<open>unshiftEntry\<close> calls with \<open>m - n \<ge> - 2^53\<close>
  succeeds and assigns the ids \<open>m - 1\<close>, \<open>m - 2\<close>, ..., \<open>m - n\<close>: these are the ids
  written into the callers' entries and the ids of the records added. After one push on
  the empty database the lowest id is 1, and the ids are \<open>0\<close>, \<open>-1\<close>, ..., \<open>1 - n\<close>.
  The descent has a lower bound: on any database whose lowest id is \<open>- 2^53\<close> the
  subtraction returns \<open>- 2^53\<close> again and the call throws.
\<close>

theorem unshiftEntry_ids_descend:
  assumes "records db \<noteq> []" and "\<forall>e \<in> set es. accepted node_env e"
  shows "(Min (set (map id_field (records db))) \<le> 2 ^ 53
          \<and> - (2 ^ 53) \<le> Min (set (map id_field (records db))) - int (length es) \<longrightarrow>
           (\<exists>db'. run node_env (map (UnshiftEntry this) es) db =
              Inr (map2 (\<lambda>k e. Stored (e\<lparr>id_field := Some k,
                                          queueName := Some (this_queueName this)\<rparr>))
                     (idsDown (Min (set (map id_field (records db))) - 1) (length es)) es, db')
            \<and> map id_field (records db') =
                rev (idsDown (Min (set (map id_field (records db))) - 1) (length es))
                @ map id_field (records db))
           \<and> (\<forall>i < length es.
                idsDown (Min (set (map id_field (records db))) - 1) (length es) ! i =
                  Min (set (map id_field (records db))) - 1 - int i))
       \<and> (Min (set (map id_field (records db))) = - (2 ^ 53) \<longrightarrow>
            (\<forall>e. accepted node_env e \<longrightarrow>
               unshiftEntry node_env this e db =
                 (e\<lparr>id_field := Some (- (2 ^ 53)), queueName := Some (this_queueName this)\<rparr>,
                  Inl ConstraintError)))"
proof -
  define M where "M = Min (set (map id_field (records db)))"
  have m: "frontId db = M - 1"
    using assms(1) by (simp add: frontId_def M_def)
  have 1: "(\<exists>db'. run node_env (map (UnshiftEntry this) es) db =
              Inr (map2 (\<lambda>k e. Stored (e\<lparr>id_field := Some k,
                                          queueName := Some (this_queueName this)\<rparr>))
                     (idsDown (M - 1) (length es)) es, db')
            \<and> map id_field (records db') =
                rev (idsDown (M - 1) (length es)) @ map id_field (records db))
           \<and> (\<forall>i < length es. idsDown (M - 1) (length es) ! i = M - 1 - int i)"
    if "M \<le> 2 ^ 53" and "- (2 ^ 53) \<le> M - int (length es)"
  proof -
    have hi: "frontId db < 2 ^ 53" and lo: "- (2 ^ 53) \<le> frontId db - int (length es) + 1"
      using that unfolding m by simp_all
    from run_unshifts_ids[OF assms hi lo, of this] idsDown_nth
    show ?thesis unfolding m by blast
  qed
  have 2: "unshiftEntry node_env this e db =
                 (e\<lparr>id_field := Some (- (2 ^ 53)), queueName := Some (this_queueName this)\<rparr>,
                  Inl ConstraintError)"
    if "M = - (2 ^ 53)" and "accepted node_env e" for e
  proof -
    have a: "assertEntry node_env ''unshiftEntry'' e = None"
      using that(2) by (simp add: assertEntry_accepted)
    have "Min (set (map id_field (records db))) = - 9007199254740992"
      using that(1) unfolding M_def by simp
    from unshiftEntry_at_lowest[OF a assms(1) this, of this] show ?thesis by simp
  qed
  from 1 2 show ?thesis unfolding M_def by blast
qed

theorem unshiftEntry_ids_descend_witness:
  "snd (pushEntry ''development'' (new_QueueStore ''Q'') (example_entry ''/a'') emptyDb) =
     Inr \<lparr>records = [stamped (new_QueueStore ''Q'') 1 (example_entry ''/a'')], keyGenerator = 2\<rparr> \<and>
   (\<exists>db'. run ''development''
        (map (UnshiftEntry (new_QueueStore ''Q''))
           [example_entry ''/b'', example_entry ''/c'', example_entry ''/d''])
        \<lparr>records = [stamped (new_QueueStore ''Q'') 1 (example_entry ''/a'')], keyGenerator = 2\<rparr> =
      Inr ([Stored ((example_entry ''/b'')\<lparr>id_field := Some 0, queueName := Some ''Q''\<rparr>),
            Stored ((example_entry ''/c'')\<lparr>id_field := Some (- 1), queueName := Some ''Q''\<rparr>),
            Stored ((example_entry ''/d'')\<lparr>id_field := Some (- 2), queueName := Some ''Q''\<rparr>)],
           db') \<and>
      map id_field (records db') = [- 2, - 1, 0, 1])"
proof -
  let ?db = "\<lparr>records = [stamped (new_QueueStore ''Q'') 1 (example_entry ''/a'')], keyGenerator = 2\<rparr>"
  let ?es = "[example_entry ''/b'', example_entry ''/c'', example_entry ''/d'']"
  have p: "snd (pushEntry ''development'' (new_QueueStore ''Q'') (example_entry ''/a'') emptyDb) = Inr ?db"
    by (simp add: pushEntry_accepted assertEntry_accepted emptyDb_def)
  have ne: "records ?db \<noteq> []" by simp
  have h: "\<forall>e \<in> set ?es. accepted ''development'' e" by simp
  have n: "length ?es = Suc (Suc (Suc 0))" by simp
  have m1: "Min (set (map id_field (records ?db))) = 1" by simp
  have rng: "Min (set (map id_field (records ?db))) \<le> 2 ^ 53
          \<and> - (2 ^ 53) \<le> Min (set (map id_field (records ?db))) - int (length ?es)"
    unfolding m1 by simp
  from unshiftEntry_ids_descend[OF ne h, of "new_QueueStore ''Q''",
      THEN conjunct1, rule_format, OF rng, THEN conjunct1]
  have "\<exists>db'. run ''development'' (map (UnshiftEntry (new_QueueStore ''Q'')) ?es) ?db =
      Inr ([Stored ((example_entry ''/b'')\<lparr>id_field := Some 0, queueName := Some ''Q''\<rparr>),
            Stored ((example_entry ''/c'')\<lparr>id_field := Some (- 1), queueName := Some ''Q''\<rparr>),
            Stored ((example_entry ''/d'')\<lparr>id_field := Some (- 2), queueName := Some ''Q''\<rparr>)],
           db') \<and>
      map id_field (records db') = [- 2, - 1, 0, 1]"
    unfolding m1 n by (simp add: new_QueueStore_def)
  with p show ?thesis by blast
qed

text \<open>
  The ids are bounded below, and the id computed is not always the lowest id minus 1: on
  the database whose lowest id is \<open>- 2^53\<close>, the id written into the caller's entry is
  \<open>- 2^53\<close> itself, and the call throws.
\<close>

theorem unshiftEntry_ids_descend_counterexample:
  "records lowDb \<noteq> [] \<and>
   Min (set (map id_field (records lowDb))) = - 9007199254740992 \<and>
   accepted ''production'' (example_entry ''/b'') \<and>
   unshiftEntry ''production'' (new_QueueStore ''Q'') (example_entry ''/b'') lowDb =
     ((example_entry ''/b'')\<lparr>id_field := Some (- 9007199254740992), queueName := Some ''Q''\<rparr>,
      Inl ConstraintError) \<and>
   records lowDb =
     [stamped (new_QueueStore ''Q'') (- 9007199254740992) (example_entry ''/a'')]"
proof -
  have a: "assertEntry ''production'' ''unshiftEntry'' (example_entry ''/b'') = None"
    by (simp add: assertEntry_accepted)
  have r: "records lowDb =
     [stamped (new_QueueStore ''Q'') (- 9007199254740992) (example_entry ''/a'')]"
    by (simp add: lowDb_def)
  show ?thesis
    using lowDb_facts r
    by (simp add: unshiftEntry_at_lowest[OF a lowDb_facts] new_QueueStore_def)
qed

section \<open>Isolation of queues\<close>

text \<open>
  Claim C5. From any well-formed database, after any interleaving of \<^verbatim>\<open>pushEntry\<close>
  calls made through any stores, \<^verbatim>\<open>getAll()\<close> on a store \<open>B\<close> lists what it listed
  before followed by the entries pushed through stores bound to \<open>B\<close>'s queue name, and
  nothing else: the record of every push made through a store bound to another name is in
  the database and is not in \<open>B\<close>'s list. Moreover no call of any method changes a stored
  entry: a record found after the call under an id that was in use before the call is the
  very record that was there, with the same queue name.
\<close>

theorem queue_isolation:
  assumes "wf_db db" and "\<forall>(s, e) \<in> set calls. accepted node_env e"
  shows "(\<exists>outs db'. run node_env (map (\<lambda>(s, e). PushEntry s e) calls) db = Inr (outs, db')
           \<and> getAll B db' =
               getAll B db @
               map (\<lambda>(k, s, e). stamped s k e)
                 (filter (\<lambda>(k, s, e). this_queueName s = this_queueName B)
                    (zip (idsUp (keyGenerator db) (length calls)) calls))
           \<and> (\<forall>(k, s, e) \<in> set (zip (idsUp (keyGenerator db) (length calls)) calls).
                 this_queueName s \<noteq> this_queueName B \<longrightarrow>
                   stamped s k e \<in> set (records db') \<and> stamped s k e \<notin> set (getAll B db')))
       \<and> (\<forall>c out db1. step node_env c db = Inr (out, db1) \<longrightarrow>
             (\<forall>r1 \<in> set (records db1). \<forall>r \<in> set (records db).
                id_field r1 = id_field r \<longrightarrow> r1 = r))"
proof -
  from run_interleaved_pushes[OF assms, of B] obtain outs db' where
    r: "run node_env (map (\<lambda>(s, e). PushEntry s e) calls) db = Inr (outs, db')"
    and recs: "records db' =
               rev (map (\<lambda>(k, s, e). stamped s k e)
                      (zip (idsUp (keyGenerator db) (length calls)) calls)) @ records db"
    and g: "getAll B db' =
               getAll B db @
               map (\<lambda>(k, s, e). stamped s k e)
                 (filter (\<lambda>(k, s, e). this_queueName s = this_queueName B)
                    (zip (idsUp (keyGenerator db) (length calls)) calls))"
    by blast
  have other: "\<forall>(k, s, e) \<in> set (zip (idsUp (keyGenerator db) (length calls)) calls).
                 this_queueName s \<noteq> this_queueName B \<longrightarrow>
                   stamped s k e \<in> set (records db') \<and> stamped s k e \<notin> set (getAll B db')"
  proof (clarify, rule conjI)
    fix k s e
    assume z: "(k, s, e) \<in> set (zip (idsUp (keyGenerator db) (length calls)) calls)"
      and n: "this_queueName s \<noteq> this_queueName B"
    from z show "stamped s k e \<in> set (records db')"
      unfolding recs by force
    show "stamped s k e \<notin> set (getAll B db')"
      using n by (simp add: getAll_set)
  qed
  have same: "\<forall>c out db1. step node_env c db = Inr (out, db1) \<longrightarrow>
             (\<forall>r1 \<in> set (records db1). \<forall>r \<in> set (records db).
                id_field r1 = id_field r \<longrightarrow> r1 = r)"
  proof (intro allI impI ballI)
    fix c out db1 r1 r
    assume s: "step node_env c db = Inr (out, db1)" and r1: "r1 \<in> set (records db1)"
      and r: "r \<in> set (records db)" and eq: "id_field r1 = id_field r"
    from step_keeps_records[OF assms(1) s r1] r eq have "r1 \<in> set (records db)" by force
    moreover have "inj_on id_field (set (records db))"
      using wf_dbD(1)[OF assms(1)] by (simp add: distinct_map)
    ultimately show "r1 = r" using r eq by (auto dest: inj_onD)
  qed
  from r g other same show ?thesis by blast
qed

theorem queue_isolation_witness:
  "wf_db example_db \<and>
   accepted ''development'' (example_entry ''/a'') \<and>
   accepted ''development'' (example_entry ''/b'') \<and>
   accepted ''development'' (example_entry ''/c'') \<and>
   (\<exists>outs db'. run ''development''
        [PushEntry (new_QueueStore ''A'') (example_entry ''/a''),
         PushEntry (new_QueueStore ''B'') (example_entry ''/b''),
         PushEntry (new_QueueStore ''A'') (example_entry ''/c'')] example_db = Inr (outs, db') \<and>
      getAll (new_QueueStore ''B'') db' =
        [stamped (new_QueueStore ''B'') 3 (example_entry ''/x''),
         stamped (new_QueueStore ''B'') 7 (example_entry ''/b'')] \<and>
      stamped (new_QueueStore ''A'') 6 (example_entry ''/a'') \<in> set (records db') \<and>
      stamped (new_QueueStore ''A'') 6 (example_entry ''/a'') \<notin> set (getAll (new_QueueStore ''B'') db') \<and>
      stamped (new_QueueStore ''A'') 8 (example_entry ''/c'') \<in> set (records db') \<and>
      stamped (new_QueueStore ''A'') 8 (example_entry ''/c'') \<notin> set (getAll (new_QueueStore ''B'') db'))"
proof -
  let ?calls = "[(new_QueueStore ''A'', example_entry ''/a''),
                 (new_QueueStore ''B'', example_entry ''/b''),
                 (new_QueueStore ''A'', example_entry ''/c'')]"
  have h: "\<forall>(s, e) \<in> set ?calls. accepted ''development'' e" by simp
  have k: "keyGenerator example_db = 6" by (simp add: example_db_def)
  have n: "length ?calls = Suc (Suc (Suc 0))" by simp
  have g: "getAll (new_QueueStore ''B'') example_db =
     [stamped (new_QueueStore ''B'') 3 (example_entry ''/x'')]"
    by (simp add: getAll_def getAllEntriesFromIndex_def ascending_def example_db_def
        new_QueueStore_def stamped_def)
  from queue_isolation[OF wf_db_example_db h, of "new_QueueStore ''B''", THEN conjunct1]
  have "\<exists>outs db'. run ''development''
        [PushEntry (new_QueueStore ''A'') (example_entry ''/a''),
         PushEntry (new_QueueStore ''B'') (example_entry ''/b''),
         PushEntry (new_QueueStore ''A'') (example_entry ''/c'')] example_db = Inr (outs, db') \<and>
      getAll (new_QueueStore ''B'') db' =
        [stamped (new_QueueStore ''B'') 3 (example_entry ''/x''),
         stamped (new_QueueStore ''B'') 7 (example_entry ''/b'')] \<and>
      stamped (new_QueueStore ''A'') 6 (example_entry ''/a'') \<in> set (records db') \<and>
      stamped (new_QueueStore ''A'') 6 (example_entry ''/a'') \<notin> set (getAll (new_QueueStore ''B'') db') \<and>
      stamped (new_QueueStore ''A'') 8 (example_entry ''/c'') \<in> set (records db') \<and>
      stamped (new_QueueStore ''A'') 8 (example_entry ''/c'') \<notin> set (getAll (new_QueueStore ''B'') db')"
    unfolding k n g by (simp add: new_QueueStore_def)
  with wf_db_example_db show ?thesis by simp
qed

section \<open>The example scenario\<close>

text \<open>
  Claim C7. On a queue \<open>Q\<close> that is empty at the start (in any well-formed database,
  whatever the other queues hold, as long as the id the unshift is to assign lies between
  \<open>- 2^53\<close> and \<open>2^53 - 1\<close>): push \<^verbatim>\<open>{requestData:{url:'/a'}}\<close>, push
  \<^verbatim>\<open>{requestData:{url:'/b'}}\<close>, unshift \<^verbatim>\<open>{requestData:{url:'/c'}}\<close>. Then
  \<^verbatim>\<open>getAll()\<close> lists the entries in the order \<open>/c\<close>, \<open>/a\<close>, \<open>/b\<close>;
  \<^verbatim>\<open>popEntry()\<close> returns the \<open>/b\<close> entry; \<^verbatim>\<open>shiftEntry()\<close> returns the \<open>/c\<close>
  entry; and the final \<^verbatim>\<open>getAll()\<close> lists the \<open>/a\<close> entry alone. No call throws, in
  any build (\<open>node_env\<close> is arbitrary). On the empty database the three entries carry
  the ids 1, 2 and 0.
\<close>

theorem example_scenario:
  assumes "wf_db db" and "getAll (new_QueueStore ''Q'') db = []"
    and "- (2 ^ 53) \<le> min (frontId db) (keyGenerator db - 1)"
    and "min (frontId db) (keyGenerator db - 1) < 2 ^ 53"
  shows "\<exists>db'. run node_env
     [PushEntry (new_QueueStore ''Q'') (example_entry ''/a''),
      PushEntry (new_QueueStore ''Q'') (example_entry ''/b''),
      UnshiftEntry (new_QueueStore ''Q'') (example_entry ''/c''),
      GetAll (new_QueueStore ''Q''),
      PopEntry (new_QueueStore ''Q''),
      ShiftEntry (new_QueueStore ''Q''),
      GetAll (new_QueueStore ''Q'')] db =
   Inr ([Stored ((example_entry ''/a'')\<lparr>queueName := Some ''Q''\<rparr>),
         Stored ((example_entry ''/b'')\<lparr>queueName := Some ''Q''\<rparr>),
         Stored ((example_entry ''/c'')
                   \<lparr>id_field := Some (min (frontId db) (keyGenerator db - 1)),
                    queueName := Some ''Q''\<rparr>),
         Listed [stamped (new_QueueStore ''Q'') (min (frontId db) (keyGenerator db - 1))
                   (example_entry ''/c''),
                 stamped (new_QueueStore ''Q'') (keyGenerator db) (example_entry ''/a''),
                 stamped (new_QueueStore ''Q'') (keyGenerator db + 1) (example_entry ''/b'')],
         Removed (Some (stamped (new_QueueStore ''Q'') (keyGenerator db + 1)
                          (example_entry ''/b''))),
         Removed (Some (stamped (new_QueueStore ''Q'') (min (frontId db) (keyGenerator db - 1))
                          (example_entry ''/c''))),
         Listed [stamped (new_QueueStore ''Q'') (keyGenerator db) (example_entry ''/a'')]],
        db')"
proof -
  let ?Q = "new_QueueStore ''Q''"
  let ?a = "example_entry ''/a''" and ?b = "example_entry ''/b''" and ?c = "example_entry ''/c''"
  let ?ka = "keyGenerator db" and ?kb = "keyGenerator db + 1"
  let ?kc = "min (frontId db) (keyGenerator db - 1)"
  define db1 where "db1 = pushed ?Q ?a db"
  define db2 where "db2 = pushed ?Q ?b db1"
  define db3 where "db3 = unshifted ?Q ?c db2"
  define db4 where "db4 = db3\<lparr>records := removeAll (stamped ?Q ?kb ?b) (records db3)\<rparr>"
  define db5 where "db5 = db4\<lparr>records := removeAll (stamped ?Q ?kc ?c) (records db4)\<rparr>"
  have qn: "this_queueName ?Q = ''Q''" by (simp add: new_QueueStore_def)
  have wf1: "wf_db db1" unfolding db1_def using assms(1) by (rule wf_db_pushed)
  have wf2: "wf_db db2" unfolding db2_def using wf1 by (rule wf_db_pushed)
  have wf3: "wf_db db3" unfolding db3_def using wf2 by (rule wf_db_unshifted)
  have wf4: "wf_db db4" unfolding db4_def using wf3 by (rule wf_db_removeAll)
  have k1: "keyGenerator db1 = ?kb" by (simp add: db1_def)
  have f1: "frontId db1 = ?kc" unfolding db1_def by (rule frontId_pushed[OF assms(1)])
  have f2: "frontId db2 = ?kc"
    unfolding db2_def frontId_pushed[OF wf1] f1 k1 by simp
  have ne2: "records db2 \<noteq> []" by (simp add: db2_def)
  have ex2: "lowestExact db2"
    by (rule lowestExact_frontId) (use assms(3,4) f2 in simp_all)
  have lt: "?kc < ?ka" by simp
  have g1: "getAll ?Q db1 = [stamped ?Q ?ka ?a]"
    by (simp add: db1_def getAll_pushed[OF assms(1)] assms(2))
  have g2: "getAll ?Q db2 = [stamped ?Q ?ka ?a, stamped ?Q ?kb ?b]"
    by (simp add: db2_def getAll_pushed[OF wf1] g1 k1)
  have g3: "getAll ?Q db3 = [stamped ?Q ?kc ?c, stamped ?Q ?ka ?a, stamped ?Q ?kb ?b]"
    by (simp add: db3_def getAll_unshifted g2 f2)
  have g4: "getAll ?Q db4 = [stamped ?Q ?kc ?c, stamped ?Q ?ka ?a]"
    using lt by (simp add: db4_def getAll_removeAll g3 stamped_def)
  have g5: "getAll ?Q db5 = [stamped ?Q ?ka ?a]"
    using lt by (simp add: db5_def getAll_removeAll g4 stamped_def)
  have s1: "step node_env (PushEntry ?Q ?a) db =
      Inr (Stored (?a\<lparr>queueName := Some ''Q''\<rparr>), db1)"
    by (simp only: step_PushEntry[OF accepted_example_entry] db1_def qn) (simp add: example_entry_def)
  have s2: "step node_env (PushEntry ?Q ?b) db1 =
      Inr (Stored (?b\<lparr>queueName := Some ''Q''\<rparr>), db2)"
    by (simp only: step_PushEntry[OF accepted_example_entry] db2_def qn) (simp add: example_entry_def)
  have s3: "step node_env (UnshiftEntry ?Q ?c) db2 =
      Inr (Stored (?c\<lparr>id_field := Some ?kc, queueName := Some ''Q''\<rparr>), db3)"
    using ne2
    by (simp only: step_UnshiftEntry[OF accepted_example_entry ex2] db3_def qn f2 if_False)
  have s4: "step node_env (GetAll ?Q) db3 =
      Inr (Listed [stamped ?Q ?kc ?c, stamped ?Q ?ka ?a, stamped ?Q ?kb ?b], db3)"
    by (simp add: g3)
  have s5: "step node_env (PopEntry ?Q) db3 = Inr (Removed (Some (stamped ?Q ?kb ?b)), db4)"
    using step_PopEntry[OF wf3, of ?Q node_env] by (simp add: g3 db4_def)
  have s6: "step node_env (ShiftEntry ?Q) db4 = Inr (Removed (Some (stamped ?Q ?kc ?c)), db5)"
    using step_ShiftEntry[OF wf4, of ?Q node_env] by (simp add: g4 db5_def)
  have s7: "step node_env (GetAll ?Q) db5 = Inr (Listed [stamped ?Q ?ka ?a], db5)"
    by (simp add: g5)
  have r0: "run node_env [] db5 = Inr ([], db5)" by simp
  note run_Cons_step[OF s1 run_Cons_step[OF s2 run_Cons_step[OF s3 run_Cons_step[OF s4
        run_Cons_step[OF s5 run_Cons_step[OF s6 run_Cons_step[OF s7 r0]]]]]]]
  then show ?thesis by blast
qed

theorem example_scenario_witness:
  "wf_db emptyDb \<and> getAll (new_QueueStore ''Q'') emptyDb = [] \<and>
   (\<exists>db'. run ''development''
     [PushEntry (new_QueueStore ''Q'') (example_entry ''/a''),
      PushEntry (new_QueueStore ''Q'') (example_entry ''/b''),
      UnshiftEntry (new_QueueStore ''Q'') (example_entry ''/c''),
      GetAll (new_QueueStore ''Q''),
      PopEntry (new_QueueStore ''Q''),
      ShiftEntry (new_QueueStore ''Q''),
      GetAll (new_QueueStore ''Q'')] emptyDb =
   Inr ([Stored ((example_entry ''/a'')\<lparr>queueName := Some ''Q''\<rparr>),
         Stored ((example_entry ''/b'')\<lparr>queueName := Some ''Q''\<rparr>),
         Stored ((example_entry ''/c'')\<lparr>id_field := Some 0, queueName := Some ''Q''\<rparr>),
         Listed [stamped (new_QueueStore ''Q'') 0 (example_entry ''/c''),
                 stamped (new_QueueStore ''Q'') 1 (example_entry ''/a''),
                 stamped (new_QueueStore ''Q'') 2 (example_entry ''/b'')],
         Removed (Some (stamped (new_QueueStore ''Q'') 2 (example_entry ''/b''))),
         Removed (Some (stamped (new_QueueStore ''Q'') 0 (example_entry ''/c''))),
         Listed [stamped (new_QueueStore ''Q'') 1 (example_entry ''/a'')]],
        db'))"
proof -
  have g: "getAll (new_QueueStore ''Q'') emptyDb = []"
    by (simp add: getAll_Nil_iff emptyDb_def)
  have k: "keyGenerator emptyDb = 1" and f: "frontId emptyDb = 1"
    by (simp_all add: emptyDb_def frontId_def)
  have lo: "- (2 ^ 53) \<le> min (frontId emptyDb) (keyGenerator emptyDb - 1)"
    and hi: "min (frontId emptyDb) (keyGenerator emptyDb - 1) < 2 ^ 53"
    unfolding k f by simp_all
  show ?thesis
    using wf_db_emptyDb g example_scenario[OF wf_db_emptyDb g lo hi, of "''development''"]
    unfolding k f by simp
qed

end
